theory Spec2Isabelle
  imports Complex_Main
begin

section \<open>Numbers and formatting helpers (utils/formatters.js)\<close>

text \<open>
  JavaScript numbers are modelled as reals. A value that the source tests with
  \<^verbatim>\<open>typeof x === "number" && Number.isFinite(x)\<close> is a \<open>real option\<close>: \<open>Some r\<close> is the
  finite number \<open>r\<close>, \<open>None\<close> is everything else (\<^verbatim>\<open>null\<close>, \<^verbatim>\<open>undefined\<close>, \<^verbatim>\<open>NaN\<close>, an
  infinity, a non-number). The segmenter and the delta engine are modelled with exact
  arithmetic. Where a verdict depends on how a result rounds (the thresholds of the pacing
  classifier, the distance filter of the matcher), each operation rounds its exact result
  to a double with \<open>round_double\<close>, defined below.
\<close>

definition safeNum :: "real option \<Rightarrow> real option" where
  "safeNum x = (case x of Some r \<Rightarrow> Some r | None \<Rightarrow> None)"

definition msToKmh :: "real option \<Rightarrow> real option" where
  "msToKmh ms = (case ms of None \<Rightarrow> None | Some v \<Rightarrow> Some (v * 36 / 10))"

definition js_round :: "real \<Rightarrow> int" where
  "js_round x = \<lfloor>x + 1 / 2\<rfloor>"

function show_nat :: "nat \<Rightarrow> string" where
  "show_nat n = (if n < 10 then [char_of (48 + n)]
                 else show_nat (n div 10) @ [char_of (48 + n mod 10)])"
  by pat_completeness auto
termination
  by (relation "measure id") auto

definition show_int :: "int \<Rightarrow> string" where
  "show_int i = (if i < 0 then CHR ''-'' # show_nat (nat (- i)) else show_nat (nat i))"

definition padStart2 :: "string \<Rightarrow> string" where
  "padStart2 s = replicate (2 - length s) CHR ''0'' @ s"

definition secToPace :: "real option \<Rightarrow> string" where
  "secToPace secPerKm =
     (case secPerKm of
        None \<Rightarrow> ''n/d''
      | Some p \<Rightarrow>
          if p \<le> 0 then ''n/d''
          else let m = \<lfloor>p / 60\<rfloor>;
                   s = js_round (p - 60 * of_int \<lfloor>p / 60\<rfloor>)
               in show_int m @ '':'' @ padStart2 (show_int s) @ ''/km'')"

text \<open>
  \<^verbatim>\<open>kmh.toFixed(1)\<close>: the nearest multiple of one tenth, the larger one on a tie, printed
  with one decimal (the exponent form that JavaScript uses from \<open>10\<^sup>2\<^sup>1\<close> on is not modelled).
\<close>

definition toFixed1 :: "real \<Rightarrow> string" where
  "toFixed1 x =
     (let n = \<lfloor>\<bar>x\<bar> * 10 + 1 / 2\<rfloor>;
          body = show_int (n div 10) @ ''.'' @ show_int (n mod 10)
      in if x < 0 then CHR ''-'' # body else body)"

definition fmtKmh :: "real option \<Rightarrow> string" where
  "fmtKmh kmh = (case kmh of None \<Rightarrow> ''n/d'' | Some v \<Rightarrow> toFixed1 v @ '' km/h'')"

section \<open>Double-precision rounding\<close>

text \<open>The number of binary digits of a natural number.\<close>

function bit_length :: "nat \<Rightarrow> nat" where
  "bit_length n = (if n = 0 then 0 else Suc (bit_length (n div 2)))"
  by pat_completeness auto
termination
  by (relation "measure id") auto

declare bit_length.simps [simp del]

text \<open>The exponent \<open>e\<close> with \<open>2\<^sup>e \<le> \<bar>x\<bar> < 2\<^sup>e\<^sup>+\<^sup>1\<close>, for \<open>x \<noteq> 0\<close>.\<close>

definition binary_exponent :: "real \<Rightarrow> int" where
  "binary_exponent x =
     (let a = \<bar>x\<bar>
      in if 1 \<le> a then int (bit_length (nat \<lfloor>a\<rfloor>)) - 1
         else - int (bit_length (nat (\<lceil>1 / a\<rceil> - 1))))"

text \<open>The nearest integer, the even one on a tie.\<close>

definition round_even :: "real \<Rightarrow> int" where
  "round_even y =
     (let f = \<lfloor>y\<rfloor>; r = y - of_int f
      in if r < 1 / 2 then f else if 1 / 2 < r then f + 1 else if even f then f else f + 1)"

text \<open>
  The double nearest to a real (IEEE 754 binary64, round to nearest, ties to even): 53
  significant bits, and steps of \<open>2\<^sup>-\<^sup>1\<^sup>0\<^sup>7\<^sup>4\<close> below \<open>2\<^sup>-\<^sup>1\<^sup>0\<^sup>2\<^sup>2\<close>. Overflow to an infinity
  (beyond about \<open>1.8 \<times> 10\<^sup>3\<^sup>0\<^sup>8\<close>) is not modelled.
\<close>

definition round_double :: "real \<Rightarrow> real" where
  "round_double x =
     (if x = 0 then 0
      else let s = 52 - max (binary_exponent x) (- 1022)
           in if 0 \<le> s then of_int (round_even (x * 2 ^ nat s)) / 2 ^ nat s
              else of_int (round_even (x / 2 ^ nat (- s))) * 2 ^ nat (- s))"

text \<open>The operators \<^verbatim>\<open>+\<close>, \<^verbatim>\<open>-\<close> and \<^verbatim>\<open>/\<close> on doubles (the divisor is not zero).\<close>

definition fl_add :: "real \<Rightarrow> real \<Rightarrow> real" where
  "fl_add x y = round_double (x + y)"

definition fl_sub :: "real \<Rightarrow> real \<Rightarrow> real" where
  "fl_sub x y = round_double (x - y)"

definition fl_div :: "real \<Rightarrow> real \<Rightarrow> real" where
  "fl_div x y = round_double (x / y)"

section \<open>Segmenter (utils/stream-analysis.js, computeSplits1km)\<close>

text \<open>
  A field of \<open>streams\<close> holds what \<^verbatim>\<open>streams?.X?.data\<close> evaluates to: \<open>None\<close> when the streams
  object, the stream or its data array is missing, \<open>Some xs\<close> for an array. Distance and time
  samples are numbers; heart-rate and power samples pass through
  \<^verbatim>\<open>filter(Number.isFinite)\<close>, so a sample there is \<open>None\<close> when it is not a finite number.
\<close>

record streams =
  distance :: "real list option"
  time :: "real list option"
  heartrate :: "real option list option"
  watts :: "real option list option"

record split_rec =
  km :: nat
  mode :: string
  meters :: real
  seconds :: real
  secPerKm :: "real option"
  speedKmh :: "real option"
  label :: string
  hrAvg :: "int option"
  hrMax :: "real option"
  powerAvg :: "int option"

record loop_state =
  splits :: "split_rec list"
  nextKm :: real
  startIdx :: nat

text \<open>\<^verbatim>\<open>arr.slice(a, b).filter(Number.isFinite)\<close> for \<open>a \<le> b \<le> length arr\<close>.\<close>

definition finite_slice :: "real option list \<Rightarrow> nat \<Rightarrow> nat \<Rightarrow> real list" where
  "finite_slice arr a b = List.map_filter (\<lambda>x. x) (take (b - a) (drop a arr))"

definition seg_avg :: "real list \<Rightarrow> int option" where
  "seg_avg seg = (if seg = [] then None else Some (js_round (sum_list seg / real (length seg))))"

definition seg_max :: "real list \<Rightarrow> real option" where
  "seg_max seg = (case seg of [] \<Rightarrow> None | x # xs \<Rightarrow> Some (fold max xs x))"

text \<open>The body of the \<^verbatim>\<open>for\<close> loop at sample index \<open>i\<close> (\<open>i < length dst\<close>).\<close>

definition split_step ::
  "string \<Rightarrow> real list \<Rightarrow> real list \<Rightarrow> real option list option \<Rightarrow> real option list option
     \<Rightarrow> nat \<Rightarrow> loop_state \<Rightarrow> loop_state" where
  "split_step md dst tms hr wt i st =
     (if dst ! i \<ge> nextKm st then
        let m = dst ! i - dst ! startIdx st;
            s = tms ! i - tms ! startIdx st;
            speedMs = (if m > 0 \<and> s > 0 then Some (m / s) else None);
            spKmh = (case speedMs of None \<Rightarrow> None | Some v \<Rightarrow> msToKmh (Some v));
            spk = (if m > 0 \<and> s > 0 then Some (s / (m / 1000)) else None);
            hseg = (case hr of
                      None \<Rightarrow> []
                    | Some h \<Rightarrow> if length h = length dst
                                then finite_slice h (startIdx st) (i + 1) else []);
            pseg = (case wt of
                      None \<Rightarrow> []
                    | Some w \<Rightarrow> if length w = length dst
                                then finite_slice w (startIdx st) (i + 1) else []);
            lab = (if md = ''pace'' then secToPace spk
                   else if spKmh \<noteq> None then fmtKmh spKmh else ''n/d'')
        in \<lparr> splits = splits st @
                 [\<lparr> km = length (splits st) + 1, mode = md, meters = m, seconds = s,
                    secPerKm = spk, speedKmh = spKmh, label = lab,
                    hrAvg = seg_avg hseg, hrMax = seg_max hseg, powerAvg = seg_avg pseg \<rparr>],
             nextKm = nextKm st + 1000,
             startIdx = i \<rparr>
      else st)"

definition init_state :: loop_state where
  "init_state = \<lparr> splits = [], nextKm = 1000, startIdx = 0 \<rparr>"

text \<open>The loop state after the samples \<open>0 .. n - 1\<close> have been scanned.\<close>

definition splits_loop ::
  "string \<Rightarrow> real list \<Rightarrow> real list \<Rightarrow> real option list option \<Rightarrow> real option list option
     \<Rightarrow> nat \<Rightarrow> loop_state" where
  "splits_loop md dst tms hr wt n = fold (split_step md dst tms hr wt) [0..<n] init_state"

definition computeSplits1km :: "streams \<Rightarrow> string \<Rightarrow> split_rec list" where
  "computeSplits1km strm md =
     (case distance strm of
        None \<Rightarrow> []
      | Some dst \<Rightarrow>
          (case time strm of
             None \<Rightarrow> []
           | Some tms \<Rightarrow>
               if length dst \<noteq> length tms then []
               else splits (splits_loop md dst tms (heartrate strm) (watts strm) (length dst))))"

section \<open>Pacing classifier (utils/stream-analysis.js, pacingInsight)\<close>

text \<open>
  The three labels stand for the string literals of the source:
  \<open>PacingEstavel\<close> for \<^verbatim>\<open>"Pacing estavel"\<close> (stable), \<open>NegativeSplit\<close> for
  \<^verbatim>\<open>"Negative split"\<close> and \<open>Fade\<close> for \<^verbatim>\<open>"Fade (ritmo caiu)"\<close>; the accents and emoji of
  the literals are left out. \<open>None\<close> is \<^verbatim>\<open>null\<close>.
\<close>

datatype pacing_label = PacingEstavel | NegativeSplit | Fade

definition valid_pace :: "split_rec \<Rightarrow> bool" where
  "valid_pace s = (secPerKm s \<noteq> None)"

text \<open>\<^verbatim>\<open>b.secPerKm\<close> as an operand of \<^verbatim>\<open>+\<close>: \<^verbatim>\<open>null\<close> counts as zero.\<close>

definition pace_num :: "split_rec \<Rightarrow> real" where
  "pace_num s = (case secPerKm s of Some p \<Rightarrow> p | None \<Rightarrow> 0)"

text \<open>
  \<^verbatim>\<open>arr.reduce((a, b) => a + b.secPerKm, 0) / arr.length\<close>, for a non-empty \<open>arr\<close>: every
  sum and the quotient are rounded.
\<close>

definition avg :: "split_rec list \<Rightarrow> real" where
  "avg arr = fl_div (fold (\<lambda>b a. fl_add a (pace_num b)) arr 0) (real (length arr))"

definition pacingInsight :: "split_rec list \<Rightarrow> pacing_label option" where
  "pacingInsight spl =
     (if length spl < 4 then None
      else let valid = filter valid_pace spl in
        if length valid < 4 then None
        else let mid = length valid div 2;
                 first = avg (take mid valid);
                 second = avg (drop mid valid);
                 diff = fl_sub second first
             in if \<bar>diff\<bar> < 5 then Some PacingEstavel
                else if diff < 0 then Some NegativeSplit
                else Some Fade)"



text \<open>
  The sample-index pairs \<open>(startIdx, i)\<close> of the iterations \<open>i < n\<close> at which the loop's
  \<^verbatim>\<open>if (dist[i] >= nextKm)\<close> fires: where each emitted split opens and where it closes.
\<close>

primrec split_bounds ::
  "string \<Rightarrow> real list \<Rightarrow> real list \<Rightarrow> real option list option \<Rightarrow> real option list option
     \<Rightarrow> nat \<Rightarrow> (nat \<times> nat) list" where
  "split_bounds md dst tms hr wt 0 = []"
| "split_bounds md dst tms hr wt (Suc n) =
     (let st = splits_loop md dst tms hr wt n
      in if dst ! n \<ge> nextKm st
         then split_bounds md dst tms hr wt n @ [(startIdx st, n)]
         else split_bounds md dst tms hr wt n)"

section \<open>Activity records (core/activity-handler.js, storage/store.js)\<close>

text \<open>
  The fields of a stored record that the matcher and the delta engine read. A numeric
  field is \<open>Some r\<close> for a finite number and \<open>None\<close> for \<^verbatim>\<open>null\<close> or a missing field, the values
  a record written by the handler and read back from JSON can hold there. \<open>activity_id\<close> is
  \<open>None\<close> for a falsy identifier (missing, \<^verbatim>\<open>null\<close>, \<open>0\<close>) and \<open>Some n\<close> for the number
  \<open>n \<noteq> 0\<close>; \<open>activity_id\<close> and \<open>activity_type\<close> are the fields \<^verbatim>\<open>id\<close> and \<^verbatim>\<open>type\<close>.
\<close>

record activity =
  activity_id :: "int option"
  activity_type :: "string option"
  sport_type :: "string option"
  start_date :: "string option"
  start_date_local :: "string option"
  distance_m :: "real option"
  moving_time_s :: "real option"
  total_elevation_gain_m :: "real option"
  average_heartrate :: "real option"
  average_watts :: "real option"

record derived_rec =
  hr_avg_stream :: "real option"
  hr_max_stream :: "real option"
  power_avg :: "real option"

record activity_record =
  activity :: activity
  derived :: "derived_rec option"

text \<open>The operator \<^verbatim>\<open>a ?? b\<close>.\<close>

definition nullish_or :: "'a option \<Rightarrow> 'a option \<Rightarrow> 'a option" where
  "nullish_or a b = (case a of Some v \<Rightarrow> Some v | None \<Rightarrow> b)"

section \<open>Delta engine (utils/stream-analysis.js, storage/store.js)\<close>

text \<open>\<^verbatim>\<open>toLowerCase\<close> on the letters A to Z; other characters are kept.\<close>

definition toLowerCase :: "string \<Rightarrow> string" where
  "toLowerCase s =
     map (\<lambda>c. let n = (of_char c :: nat) in if 65 \<le> n \<and> n \<le> 90 then char_of (n + 32) else c) s"

fun js_includes :: "string \<Rightarrow> string \<Rightarrow> bool" where
  "js_includes [] p = (p = [])"
| "js_includes (x # xs) p = (take (length p) (x # xs) = p \<or> js_includes xs p)"

definition isPaceBased :: "string option \<Rightarrow> string option \<Rightarrow> bool" where
  "isPaceBased activityType sportType =
     (let t = toLowerCase (case activityType of None \<Rightarrow> [] | Some x \<Rightarrow> x);
          s = toLowerCase (case sportType of None \<Rightarrow> [] | Some x \<Rightarrow> x)
      in js_includes t ''run'' \<or> js_includes t ''walk'' \<or> js_includes t ''hike''
         \<or> js_includes s ''run'' \<or> js_includes s ''walk'' \<or> js_includes s ''hike'')"

definition avgPaceSecPerKm :: "real option \<Rightarrow> real option \<Rightarrow> real option" where
  "avgPaceSecPerKm dist_m time_s =
     (let dKm = (case safeNum dist_m of Some d \<Rightarrow> Some (d / 1000) | None \<Rightarrow> None);
          t = safeNum time_s
      in case dKm of
           None \<Rightarrow> None
         | Some k \<Rightarrow>
             (case t of
                None \<Rightarrow> None
              | Some u \<Rightarrow> if k = 0 \<or> u = 0 \<or> k \<le> 0 \<or> u \<le> 0 then None else Some (u / k)))"

definition avgSpeedKmh :: "real option \<Rightarrow> real option \<Rightarrow> real option" where
  "avgSpeedKmh dist_m time_s =
     (case safeNum dist_m of
        None \<Rightarrow> None
      | Some d \<Rightarrow>
          (case safeNum time_s of
             None \<Rightarrow> None
           | Some u \<Rightarrow> if d = 0 \<or> u = 0 \<or> d \<le> 0 \<or> u \<le> 0 then None
                       else msToKmh (Some (d / u))))"

definition pctDiff :: "real option \<Rightarrow> real option \<Rightarrow> real option" where
  "pctDiff a b =
     (case a of
        None \<Rightarrow> None
      | Some x \<Rightarrow> (case b of None \<Rightarrow> None | Some y \<Rightarrow> if y = 0 then None else Some ((x - y) / y)))"

text \<open>\<^verbatim>\<open>a != null && b != null ? a - b : null\<close>.\<close>

definition diff_known :: "real option \<Rightarrow> real option \<Rightarrow> real option" where
  "diff_known a b =
     (case a of None \<Rightarrow> None | Some x \<Rightarrow> (case b of None \<Rightarrow> None | Some y \<Rightarrow> Some (x - y)))"

text \<open>\<^verbatim>\<open>a != null && b != null ? pctDiff(a, b) : null\<close>.\<close>

definition pct_known :: "real option \<Rightarrow> real option \<Rightarrow> real option" where
  "pct_known a b = (if a \<noteq> None \<and> b \<noteq> None then pctDiff a b else None)"

record delta_rec =
  delta_distance_m :: "real option"
  delta_moving_time_s :: "real option"
  delta_elevation_gain_m :: "real option"
  delta_avg_pace_sec_per_km :: "real option"
  delta_avg_pace_pct :: "real option"
  delta_avg_speed_kmh :: "real option"
  delta_avg_speed_pct :: "real option"
  delta_hr_avg :: "real option"
  delta_hr_max :: "real option"
  delta_power_avg_w :: "real option"
  delta_power_avg_pct :: "real option"

text \<open>
  The comparison result; \<open>cmp_mode\<close> is its field \<^verbatim>\<open>mode\<close>, and the fields of \<open>delta_rec\<close>
  are the fields of \<^verbatim>\<open>delta\<close> under the prefix \<open>delta_\<close>.
\<close>

record comparison =
  prev_activity_id :: "int option"
  prev_start_date_local :: "string option"
  cmp_mode :: string
  delta :: delta_rec

definition compareCurrentVsPrev ::
  "activity_record \<Rightarrow> activity_record option \<Rightarrow> comparison option" where
  "compareCurrentVsPrev current prev_opt =
     (case prev_opt of
        None \<Rightarrow> None
      | Some prev \<Rightarrow>
          let cur = activity current;
              old = activity prev;
              paceBased = isPaceBased (activity_type cur) (sport_type cur);
              curPace = (if paceBased then avgPaceSecPerKm (distance_m cur) (moving_time_s cur)
                         else None);
              oldPace = (if paceBased then avgPaceSecPerKm (distance_m old) (moving_time_s old)
                         else None);
              curSpeed = (if \<not> paceBased then avgSpeedKmh (distance_m cur) (moving_time_s cur)
                          else None);
              oldSpeed = (if \<not> paceBased then avgSpeedKmh (distance_m old) (moving_time_s old)
                          else None);
              curHrAvg = safeNum (nullish_or
                           (case derived current of None \<Rightarrow> None | Some d \<Rightarrow> hr_avg_stream d)
                           (average_heartrate cur));
              oldHrAvg = safeNum (nullish_or
                           (case derived prev of None \<Rightarrow> None | Some d \<Rightarrow> hr_avg_stream d)
                           (average_heartrate old));
              curHrMax = safeNum (nullish_or
                           (case derived current of None \<Rightarrow> None | Some d \<Rightarrow> hr_max_stream d)
                           None);
              oldHrMax = safeNum (nullish_or
                           (case derived prev of None \<Rightarrow> None | Some d \<Rightarrow> hr_max_stream d)
                           None);
              curPwr = safeNum (nullish_or
                         (case derived current of None \<Rightarrow> None | Some d \<Rightarrow> power_avg d)
                         (average_watts cur));
              oldPwr = safeNum (nullish_or
                         (case derived prev of None \<Rightarrow> None | Some d \<Rightarrow> power_avg d)
                         (average_watts old))
          in Some
            \<lparr> prev_activity_id = activity_id old,
              prev_start_date_local = nullish_or (start_date_local old) (start_date old),
              cmp_mode = (if paceBased then ''pace'' else ''speed''),
              delta =
                \<lparr> delta_distance_m =
                    diff_known (safeNum (distance_m cur)) (safeNum (distance_m old)),
                  delta_moving_time_s =
                    diff_known (safeNum (moving_time_s cur)) (safeNum (moving_time_s old)),
                  delta_elevation_gain_m =
                    diff_known (safeNum (total_elevation_gain_m cur))
                      (safeNum (total_elevation_gain_m old)),
                  delta_avg_pace_sec_per_km = diff_known curPace oldPace,
                  delta_avg_pace_pct = pct_known curPace oldPace,
                  delta_avg_speed_kmh = diff_known curSpeed oldSpeed,
                  delta_avg_speed_pct = pct_known curSpeed oldSpeed,
                  delta_hr_avg = diff_known curHrAvg oldHrAvg,
                  delta_hr_max = diff_known curHrMax oldHrMax,
                  delta_power_avg_w = diff_known curPwr oldPwr,
                  delta_power_avg_pct = pct_known curPwr oldPwr \<rparr> \<rparr>)"

section \<open>Record store (storage/store.js, appendStore and readStore)\<close>

text \<open>
  The log file is a \<open>string option\<close>: \<open>None\<close> when the file does not exist, \<open>Some content\<close>
  otherwise. \<^verbatim>\<open>JSON.stringify\<close> and \<^verbatim>\<open>JSON.parse\<close> are parameters: \<open>stringify\<close> gives the text
  of a record and \<open>parse\<close> gives \<open>None\<close> where \<^verbatim>\<open>JSON.parse\<close> throws. Creating the directory
  (\<^verbatim>\<open>ensureDir\<close>) changes nothing that is read back and is left out.
\<close>

definition newline :: char where
  "newline = CHR 0x0A"

definition file_content :: "string option \<Rightarrow> string" where
  "file_content file = (case file of None \<Rightarrow> [] | Some c \<Rightarrow> c)"

definition appendStore :: "('r \<Rightarrow> string) \<Rightarrow> string option \<Rightarrow> 'r \<Rightarrow> string option" where
  "appendStore stringify file record = Some (file_content file @ stringify record @ [newline])"

text \<open>\<^verbatim>\<open>content.split("\n")\<close>: the pieces between the separators, empty pieces included.\<close>

fun split_on :: "char \<Rightarrow> string \<Rightarrow> string list" where
  "split_on c [] = [[]]"
| "split_on c (x # xs) =
     (if x = c then [] # split_on c xs
      else (case split_on c xs of [] \<Rightarrow> [[x]] | l # ls \<Rightarrow> (x # l) # ls))"

text \<open>The \<^verbatim>\<open>for\<close> loop of \<open>readStore\<close>: a line that fails to parse is skipped.\<close>

definition collect_parsed :: "(string \<Rightarrow> 'r option) \<Rightarrow> string list \<Rightarrow> 'r list" where
  "collect_parsed parse tail =
     fold (\<lambda>line out. case parse line of Some r \<Rightarrow> out @ [r] | None \<Rightarrow> out) tail []"

definition readStore :: "(string \<Rightarrow> 'r option) \<Rightarrow> string option \<Rightarrow> nat \<Rightarrow> 'r list" where
  "readStore parse file limit =
     (case file of
        None \<Rightarrow> []
      | Some content \<Rightarrow>
          let lines = filter (\<lambda>l. l \<noteq> []) (split_on newline content);
              tail = drop (length lines - limit) lines
          in collect_parsed parse tail)"

text \<open>
  What happens to the log between two reads: the store appends a record, or a line that
  does not parse (a corrupted entry) gets written into the file.
\<close>

datatype 'r log_event = Appended 'r | Corrupted string

definition write_event ::
  "('r \<Rightarrow> string) \<Rightarrow> 'r log_event \<Rightarrow> string option \<Rightarrow> string option" where
  "write_event stringify e file =
     (case e of
        Appended r \<Rightarrow> appendStore stringify file r
      | Corrupted s \<Rightarrow> Some (file_content file @ s @ [newline]))"

definition log_after :: "('r \<Rightarrow> string) \<Rightarrow> 'r log_event list \<Rightarrow> string option" where
  "log_after stringify events = fold (write_event stringify) events None"

definition appended_records :: "'r log_event list \<Rightarrow> 'r list" where
  "appended_records events = List.map_filter (\<lambda>e. case e of Appended r \<Rightarrow> Some r | Corrupted s \<Rightarrow> None) events"

definition corrupted_lines :: "'r log_event list \<Rightarrow> string list" where
  "corrupted_lines events = List.map_filter (\<lambda>e. case e of Appended r \<Rightarrow> None | Corrupted s \<Rightarrow> Some s) events"

definition event_line :: "('r \<Rightarrow> string) \<Rightarrow> 'r log_event \<Rightarrow> string" where
  "event_line stringify e = (case e of Appended r \<Rightarrow> stringify r | Corrupted s \<Rightarrow> s)"

section \<open>Idempotency ledger (storage/store.js, pruneProcessed and markProcessed)\<close>

text \<open>
  The object \<^verbatim>\<open>state.processed\<close> is an association list with distinct keys, in the order
  in which \<^verbatim>\<open>Object.entries\<close> enumerates them: the keys that are array indices (canonical
  decimal numerals below \<open>2\<^sup>3\<^sup>2 - 1\<close>) in ascending numeric order, then the other keys in
  insertion order. A value is \<open>Some t\<close> for the mark timestamp \<open>t\<close> (milliseconds, an
  integer) and \<open>None\<close> for \<^verbatim>\<open>null\<close>. The ledger always holds a \<^verbatim>\<open>processed\<close> object, as
  \<open>loadState\<close> returns it; \<open>maxItems\<close> is a natural number.
\<close>

record ledger =
  lastCheckedAt :: int
  processed :: "(string \<times> int option) list"

fun digits_val :: "string \<Rightarrow> nat \<Rightarrow> nat option" where
  "digits_val [] acc = Some acc"
| "digits_val (c # cs) acc =
     (let n = (of_char c :: nat)
      in if 48 \<le> n \<and> n \<le> 57 then digits_val cs (10 * acc + (n - 48)) else None)"

definition array_index :: "string \<Rightarrow> nat option" where
  "array_index k =
     (if k = [] \<or> (hd k = CHR ''0'' \<and> 1 < length k) then None
      else case digits_val k 0 of
             None \<Rightarrow> None
           | Some n \<Rightarrow> if n < 2 ^ 32 - 1 then Some n else None)"

fun insert_index :: "nat \<Rightarrow> string \<times> 'v \<Rightarrow> (string \<times> 'v) list \<Rightarrow> (string \<times> 'v) list" where
  "insert_index n e [] = [e]"
| "insert_index n e (x # xs) =
     (case array_index (fst x) of
        Some j \<Rightarrow> if j < n then x # insert_index n e xs else e # x # xs
      | None \<Rightarrow> e # x # xs)"

text \<open>\<^verbatim>\<open>obj[k] = v\<close>: an existing key keeps its place, a new key takes its place in the order.\<close>

definition obj_set :: "string \<Rightarrow> 'v \<Rightarrow> (string \<times> 'v) list \<Rightarrow> (string \<times> 'v) list" where
  "obj_set k v m =
     (if k \<in> fst ` set m then map (\<lambda>e. if fst e = k then (k, v) else e) m
      else case array_index k of
             Some n \<Rightarrow> insert_index n (k, v) m
           | None \<Rightarrow> m @ [(k, v)])"

text \<open>\<^verbatim>\<open>delete obj[k]\<close>.\<close>

definition obj_delete :: "string \<Rightarrow> (string \<times> 'v) list \<Rightarrow> (string \<times> 'v) list" where
  "obj_delete k m = filter (\<lambda>e. fst e \<noteq> k) m"

text \<open>The sort key \<^verbatim>\<open>a[1] ?? 0\<close> of an entry.\<close>

definition mark_time :: "string \<times> int option \<Rightarrow> int" where
  "mark_time e = (case snd e of Some t \<Rightarrow> t | None \<Rightarrow> 0)"

text \<open>
  \<^verbatim>\<open>entries.sort((a, b) => (a[1] ?? 0) - (b[1] ?? 0))\<close> is the stable ascending sort by
  \<open>mark_time\<close>.
\<close>

definition pruneProcessed :: "ledger \<Rightarrow> nat \<Rightarrow> ledger" where
  "pruneProcessed state maxItems =
     (let entries = processed state
      in if length entries \<le> maxItems then state
         else let sorted = sort_key mark_time entries;
                  toDelete = length entries - maxItems
              in state\<lparr> processed :=
                          fold (\<lambda>i m. obj_delete (fst (sorted ! i)) m) [0..<toDelete]
                            (processed state) \<rparr>)"

text \<open>
  \<open>markProcessed now state key\<close>: \<open>key\<close> is \<^verbatim>\<open>String(id)\<close> and \<open>now\<close> is what \<^verbatim>\<open>Date.now()\<close>
  returns; the call of \<open>pruneProcessed\<close> uses the default \<open>maxItems = 4000\<close>.
\<close>

definition markProcessed :: "int \<Rightarrow> ledger \<Rightarrow> string \<Rightarrow> ledger" where
  "markProcessed now state key =
     pruneProcessed (state\<lparr> processed := obj_set key (Some now) (processed state) \<rparr>) 4000"

text \<open>Marking a sequence of identifiers, each with its timestamp, one after the other.\<close>

definition mark_all :: "(string \<times> int) list \<Rightarrow> ledger \<Rightarrow> ledger" where
  "mark_all marks state = fold (\<lambda>(key, now) st. markProcessed now st key) marks state"

section \<open>Historical matcher (storage/store.js, pickComparableLastWeek)\<close>









text \<open>
  The matcher's conditions on a history record \<open>x\<close>, as the specification lists them, for
  a current record that starts at \<open>curStart\<close>: an identifier of its own that differs from
  the current one, the same type, a start time (local, else UTC, else the epoch) that
  parses and lies in the window from 14 to 7 days before \<open>curStart\<close>, and, when the
  current distance is known, a positive distance within 20 per cent of it: the relative
  deviation \<open>\<bar>d - c\<bar> / c\<close>, a double, is at most the double \<open>0.2\<close>.
\<close>

definition within_20_percent :: "real \<Rightarrow> real \<Rightarrow> bool" where
  "within_20_percent d c = (c \<noteq> 0 \<and> fl_div \<bar>fl_sub d c\<bar> c \<le> round_double (1 / 5))"


section \<open>Segmenter: malformed input\<close>

text \<open>
  C9. When the distance array or the time array is missing, or their lengths differ,
  \<open>computeSplits1km\<close> returns the empty split list. The function is total and this path has
  no failing operation, so it returns without raising.
\<close>

theorem computeSplits1km_malformed_empty:
  "distance strm = None \<or> time strm = None
     \<or> (\<exists>d t. distance strm = Some d \<and> time strm = Some t \<and> length d \<noteq> length t)
   \<Longrightarrow> computeSplits1km strm md = []"
  by (auto simp: computeSplits1km_def split: option.splits)

theorem computeSplits1km_malformed_empty_witness:
  "computeSplits1km \<lparr> distance = Some [0, 600, 1200], time = Some [0, 180],
                      heartrate = None, watts = None \<rparr> ''pace'' = []
   \<and> computeSplits1km \<lparr> distance = None, time = Some [0, 180],
                      heartrate = None, watts = None \<rparr> ''pace'' = []"
  using computeSplits1km_malformed_empty
          [of "\<lparr> distance = Some [0, 600, 1200], time = Some [0, 180],
                 heartrate = None, watts = None \<rparr>" "''pace''"]
        computeSplits1km_malformed_empty
          [of "\<lparr> distance = None, time = Some [0, 180],
                 heartrate = None, watts = None \<rparr>" "''pace''"]
  by simp

section \<open>Double-precision rounding: bounds and monotonicity\<close>

lemma bit_length_bounds:
  "0 < n \<Longrightarrow> 2 ^ (bit_length n - 1) \<le> n \<and> n < 2 ^ bit_length n"
proof (induction n rule: bit_length.induct)
  case (1 n)
  show ?case
  proof (cases "n div 2 = 0")
    case True
    then have "n = 1" using "1.prems" by auto
    then show ?thesis by (simp add: bit_length.simps)
  next
    case False
    then have IH: "2 ^ (bit_length (n div 2) - 1) \<le> n div 2" "n div 2 < 2 ^ bit_length (n div 2)"
      using "1.IH" "1.prems" by auto
    have pos: "0 < bit_length (n div 2)"
      using False by (subst bit_length.simps) simp
    have bl: "bit_length n = Suc (bit_length (n div 2))"
      using "1.prems" by (subst bit_length.simps) simp
    have "2 * 2 ^ (bit_length (n div 2) - 1) \<le> n" using IH(1) by linarith
    moreover have "2 * 2 ^ (bit_length (n div 2) - 1) = (2::nat) ^ bit_length (n div 2)"
      using pos by (cases "bit_length (n div 2)") simp_all
    moreover have "n < 2 * 2 ^ bit_length (n div 2)" using IH(2) by linarith
    ultimately show ?thesis by (simp add: bl)
  qed
qed

lemma bit_length_lower: "0 < n \<Longrightarrow> 2 ^ (bit_length n - 1) \<le> n"
  using bit_length_bounds by blast

lemma bit_length_upper: "n < 2 ^ bit_length n"
proof (cases "0 < n")
  case True
  then show ?thesis using bit_length_bounds by blast
next
  case False
  then show ?thesis by simp
qed

lemma bit_length_pos: "0 < n \<Longrightarrow> 0 < bit_length n"
  by (subst bit_length.simps) simp

lemma binary_exponent_bounds:
  assumes "x \<noteq> 0"
  shows "2 powi binary_exponent x \<le> \<bar>x\<bar>" and "\<bar>x\<bar> < 2 powi (binary_exponent x + 1)"
proof -
  let ?a = "\<bar>x\<bar>"
  have apos: "0 < ?a" using assms by simp
  have "2 powi binary_exponent x \<le> ?a \<and> ?a < 2 powi (binary_exponent x + 1)"
  proof (cases "1 \<le> ?a")
    case True
    let ?n = "nat \<lfloor>?a\<rfloor>"
    have n: "0 < ?n" using True by simp
    have e: "binary_exponent x = int (bit_length ?n - 1)"
      using True bit_length_pos [OF n] by (simp add: binary_exponent_def Let_def)
    have e1: "binary_exponent x + 1 = int (bit_length ?n)"
      using e bit_length_pos [OF n] by simp
    have "real (2 ^ (bit_length ?n - 1)) \<le> real ?n"
      using bit_length_lower [OF n] by (simp only: of_nat_le_iff)
    then have "(2::real) ^ (bit_length ?n - 1) \<le> real ?n"
      by (simp only: of_nat_power of_nat_numeral)
    also have "real ?n \<le> ?a" using True by simp
    finally have lo: "2 powi binary_exponent x \<le> ?a" by (simp add: e power_int_def)
    have "?n + 1 \<le> 2 ^ bit_length ?n"
      using bit_length_upper [of ?n] by linarith
    then have "real (?n + 1) \<le> real (2 ^ bit_length ?n)" by (simp only: of_nat_le_iff)
    then have "real ?n + 1 \<le> (2::real) ^ bit_length ?n"
      by (simp only: of_nat_power of_nat_numeral of_nat_add of_nat_1)
    moreover have "real ?n = of_int \<lfloor>?a\<rfloor>" by simp
    then have "?a < real ?n + 1" by linarith
    ultimately have "?a < 2 ^ bit_length ?n" by (rule less_le_trans [rotated])
    then have "?a < 2 powi (binary_exponent x + 1)" by (simp only: e1 power_int_of_nat)
    then show ?thesis using lo by simp
  next
    case False
    let ?y = "1 / ?a"
    let ?m = "nat (\<lceil>?y\<rceil> - 1)"
    have y1: "1 < ?y" using False apos by simp
    then have c2: "2 \<le> \<lceil>?y\<rceil>" by linarith
    then have m: "0 < ?m" by simp
    have e: "binary_exponent x = - int (bit_length ?m)"
      using False by (simp add: binary_exponent_def Let_def)
    have "0 \<le> \<lceil>?y\<rceil> - 1" using c2 by linarith
    then have "real ?m = of_int (\<lceil>?y\<rceil> - 1)" by (rule of_nat_nat)
    then have "real ?m = of_int \<lceil>?y\<rceil> - 1" by simp
    then have my: "real ?m < ?y" "?y \<le> real ?m + 1" by linarith+
    have "?m + 1 \<le> 2 ^ bit_length ?m"
      using bit_length_upper [of ?m] by linarith
    then have "real (?m + 1) \<le> real (2 ^ bit_length ?m)" by (simp only: of_nat_le_iff)
    then have "real ?m + 1 \<le> (2::real) ^ bit_length ?m"
      by (simp only: of_nat_power of_nat_numeral of_nat_add of_nat_1)
    with my(2) have "?y \<le> 2 ^ bit_length ?m" by (rule order_trans)
    then have "1 \<le> ?a * 2 ^ bit_length ?m" using apos by (simp add: field_simps)
    then have lo: "2 powi binary_exponent x \<le> ?a"
      by (simp add: e power_int_minus field_simps)
    have "real (2 ^ (bit_length ?m - 1)) \<le> real ?m"
      using bit_length_lower [OF m] by (simp only: of_nat_le_iff)
    then have "(2::real) ^ (bit_length ?m - 1) \<le> real ?m"
      by (simp only: of_nat_power of_nat_numeral)
    then have "2 ^ (bit_length ?m - 1) < ?y" using my(1) by (rule le_less_trans)
    then have "?a * 2 ^ (bit_length ?m - 1) < 1" using apos by (simp add: field_simps)
    moreover have "binary_exponent x + 1 = - int (bit_length ?m - 1)"
      using e bit_length_pos [OF m] by simp
    ultimately have "?a < 2 powi (binary_exponent x + 1)"
      by (simp add: power_int_minus field_simps)
    then show ?thesis using lo by simp
  qed
  then show "2 powi binary_exponent x \<le> \<bar>x\<bar>" and "\<bar>x\<bar> < 2 powi (binary_exponent x + 1)"
    by simp_all
qed

lemma powi_mult: "(2::real) powi a * 2 powi b = 2 powi (a + b)"
  by (simp add: power_int_add)

lemma powi_less_exp: "(2::real) powi m < 2 powi n \<Longrightarrow> m < n"
proof (rule ccontr)
  assume lt: "(2::real) powi m < 2 powi n" and "\<not> m < n"
  then have "n \<le> m" by simp
  then have "(2::real) powi n \<le> 2 powi m" by (rule power_int_increasing) simp
  then show False using lt by simp
qed

lemma binary_exponent_mono:
  assumes "x \<noteq> 0" and "\<bar>x\<bar> \<le> \<bar>y\<bar>"
  shows "binary_exponent x \<le> binary_exponent y"
proof -
  have y: "y \<noteq> 0" using assms by auto
  have "2 powi binary_exponent x \<le> \<bar>x\<bar>" by (rule binary_exponent_bounds(1) [OF assms(1)])
  also have "\<bar>x\<bar> \<le> \<bar>y\<bar>" by (rule assms(2))
  also have "\<bar>y\<bar> < 2 powi (binary_exponent y + 1)" by (rule binary_exponent_bounds(2) [OF y])
  finally have "binary_exponent x < binary_exponent y + 1" by (rule powi_less_exp)
  then show ?thesis by simp
qed

lemma binary_exponent_minus: "binary_exponent (- x) = binary_exponent x"
  by (simp add: binary_exponent_def)

lemma round_even_bounds: "\<lfloor>y\<rfloor> \<le> round_even y" "round_even y \<le> \<lfloor>y\<rfloor> + 1"
  by (simp_all add: round_even_def Let_def)

lemma round_even_of_int: "round_even (of_int n) = n"
  by (simp add: round_even_def Let_def)

lemma round_even_mono:
  assumes "y \<le> z"
  shows "round_even y \<le> round_even z"
proof (cases "\<lfloor>y\<rfloor> = \<lfloor>z\<rfloor>")
  case True
  then have "y - of_int \<lfloor>y\<rfloor> \<le> z - of_int \<lfloor>z\<rfloor>" using assms by simp
  then show ?thesis using True by (auto simp: round_even_def Let_def)
next
  case False
  moreover have "\<lfloor>y\<rfloor> \<le> \<lfloor>z\<rfloor>" using assms by (rule floor_mono)
  ultimately have "\<lfloor>y\<rfloor> + 1 \<le> \<lfloor>z\<rfloor>" by simp
  then show ?thesis
    using round_even_bounds(2) [of y] round_even_bounds(1) [of z] by linarith
qed

lemma round_even_minus: "round_even (- y) = - round_even y"
proof (cases "y = of_int \<lfloor>y\<rfloor>")
  case True
  then obtain n where "y = of_int n" ..
  then have "- y = of_int (- n)" by simp
  then show ?thesis using \<open>y = of_int n\<close> by (simp only: round_even_of_int)
next
  case False
  then have lt: "of_int \<lfloor>y\<rfloor> < y" by linarith
  have ub: "y < of_int \<lfloor>y\<rfloor> + 1" by linarith
  have "\<lfloor>- y\<rfloor> = - \<lfloor>y\<rfloor> - 1"
  proof (rule floor_unique)
    have "y \<le> of_int \<lfloor>y\<rfloor> + 1" by linarith
    then have "- of_int \<lfloor>y\<rfloor> - 1 \<le> - y" by linarith
    then show "of_int (- \<lfloor>y\<rfloor> - 1) \<le> - y" by (simp only: of_int_diff of_int_minus of_int_1)
    show "- y < of_int (- \<lfloor>y\<rfloor> - 1) + 1" using lt by simp
  qed
  then show ?thesis
    by (auto simp: round_even_def Let_def)
qed

lemma round_double_powi:
  assumes "x \<noteq> 0"
  shows "round_double x
           = of_int (round_even (x * 2 powi (52 - max (binary_exponent x) (- 1022))))
             * 2 powi (max (binary_exponent x) (- 1022) - 52)"
proof -
  let ?s = "52 - max (binary_exponent x) (- 1022)"
  have m: "max (binary_exponent x) (- 1022) - 52 = - ?s" by simp
  show ?thesis
  proof (cases "0 \<le> ?s")
    case True
    then have "(2::real) powi ?s = 2 ^ nat ?s" by (simp add: power_int_def)
    moreover have "(2::real) powi (- ?s) = 1 / 2 ^ nat ?s"
      using True by (simp add: power_int_minus_divide power_int_def power_one_over)
    ultimately show ?thesis
      using assms True unfolding m by (simp add: round_double_def Let_def)
  next
    case False
    then have "(2::real) powi ?s = 1 / 2 ^ nat (- ?s)"
      by (simp add: power_int_def field_simps)
    moreover have "(2::real) powi (- ?s) = 2 ^ nat (- ?s)"
      using False by (simp add: power_int_def)
    ultimately show ?thesis
      using assms False unfolding m by (simp add: round_double_def Let_def)
  qed
qed

lemma round_double_minus: "round_double (- x) = - round_double x"
proof (cases "x = 0")
  case True
  then show ?thesis by (simp add: round_double_def)
next
  case False
  then have nx: "- x \<noteq> 0" by simp
  show ?thesis
    unfolding round_double_powi [OF nx] round_double_powi [OF False] binary_exponent_minus
    by (simp add: round_even_minus)
qed

lemma round_double_0: "round_double 0 = 0"
  by (simp add: round_double_def)

lemma round_double_nonneg:
  assumes "0 \<le> x"
  shows "0 \<le> round_double x"
proof (cases "x = 0")
  case True
  then show ?thesis by (simp add: round_double_def)
next
  case False
  let ?s = "52 - max (binary_exponent x) (- 1022)"
  have "0 \<le> x * 2 powi ?s" using assms by simp
  then have "round_even 0 \<le> round_even (x * 2 powi ?s)" by (rule round_even_mono)
  then have "0 \<le> round_even (x * 2 powi ?s)"
    using round_even_of_int [of 0] by simp
  then show ?thesis using False by (simp add: round_double_powi)
qed

lemma round_double_upper:
  assumes "0 < x"
  shows "round_double x \<le> 2 powi (max (binary_exponent x) (- 1022) + 1)"
proof -
  let ?e = "binary_exponent x"
  let ?E = "max ?e (- 1022)"
  have x0: "x \<noteq> 0" using assms by simp
  have "x < 2 powi (?e + 1)" using binary_exponent_bounds(2) [OF x0] assms by simp
  also have "\<dots> \<le> 2 powi (?E + 1)" by (rule power_int_increasing) simp_all
  finally have "x * 2 powi (52 - ?E) \<le> 2 powi (?E + 1) * 2 powi (52 - ?E)"
    by (simp add: mult_right_mono)
  also have "\<dots> = 2 powi 53"
  proof -
    have "?E + 1 + (52 - ?E) = 53" by simp
    then show ?thesis by (simp only: powi_mult)
  qed
  finally have "x * 2 powi (52 - ?E) \<le> of_int (2 ^ 53)" by simp
  then have "round_even (x * 2 powi (52 - ?E)) \<le> round_even (of_int (2 ^ 53))"
    by (rule round_even_mono)
  then have "round_even (x * 2 powi (52 - ?E)) \<le> 2 ^ 53"
    by (simp only: round_even_of_int)
  then have "real_of_int (round_even (x * 2 powi (52 - ?E))) \<le> 2 powi 53"
    by (metis of_int_le_iff of_int_numeral of_int_power power_int_numeral)
  then have "real_of_int (round_even (x * 2 powi (52 - ?E))) * 2 powi (?E - 52)
               \<le> 2 powi 53 * 2 powi (?E - 52)"
    by (intro mult_right_mono) simp_all
  also have "\<dots> = 2 powi (?E + 1)"
  proof -
    have "53 + (?E - 52) = ?E + 1" by simp
    then show ?thesis by (simp only: powi_mult)
  qed
  finally show ?thesis by (simp only: round_double_powi [OF x0])
qed

lemma round_double_lower:
  assumes "0 < x" and "- 1022 \<le> binary_exponent x"
  shows "2 powi binary_exponent x \<le> round_double x"
proof -
  let ?e = "binary_exponent x"
  have x0: "x \<noteq> 0" using assms by simp
  have E: "max ?e (- 1022) = ?e" using assms(2) by simp
  have "2 powi ?e \<le> x" using binary_exponent_bounds(1) [OF x0] assms by simp
  then have "2 powi ?e * 2 powi (52 - ?e) \<le> x * 2 powi (52 - ?e)"
    by (simp add: mult_right_mono)
  moreover have "2 powi ?e * 2 powi (52 - ?e) = (2::real) powi 52"
  proof -
    have "?e + (52 - ?e) = 52" by simp
    then show ?thesis by (simp only: powi_mult)
  qed
  ultimately have "of_int (2 ^ 52) \<le> x * 2 powi (52 - ?e)" by simp
  then have "round_even (of_int (2 ^ 52)) \<le> round_even (x * 2 powi (52 - ?e))"
    by (rule round_even_mono)
  then have "2 ^ 52 \<le> round_even (x * 2 powi (52 - ?e))"
    by (simp only: round_even_of_int)
  then have "2 powi 52 \<le> real_of_int (round_even (x * 2 powi (52 - ?e)))"
    by (metis of_int_le_iff of_int_numeral of_int_power power_int_numeral)
  then have "2 powi 52 * 2 powi (?e - 52)
               \<le> real_of_int (round_even (x * 2 powi (52 - ?e))) * 2 powi (?e - 52)"
    by (intro mult_right_mono) simp_all
  moreover have "2 powi 52 * 2 powi (?e - 52) = (2::real) powi ?e"
  proof -
    have "52 + (?e - 52) = ?e" by simp
    then show ?thesis by (simp only: powi_mult)
  qed
  ultimately show ?thesis by (simp only: round_double_powi [OF x0] E)
qed

lemma round_double_mono_pos:
  assumes "0 < x" and "x \<le> y"
  shows "round_double x \<le> round_double y"
proof -
  let ?Ex = "max (binary_exponent x) (- 1022)"
  let ?Ey = "max (binary_exponent y) (- 1022)"
  have x0: "x \<noteq> 0" and y0: "y \<noteq> 0" and ypos: "0 < y" using assms by simp_all
  have "binary_exponent x \<le> binary_exponent y"
    using assms by (intro binary_exponent_mono) simp_all
  then have le: "?Ex \<le> ?Ey" by simp
  show ?thesis
  proof (cases "?Ex = ?Ey")
    case True
    have "x * 2 powi (52 - ?Ey) \<le> y * 2 powi (52 - ?Ey)"
      using assms(2) by (simp add: mult_right_mono)
    then have "round_even (x * 2 powi (52 - ?Ey)) \<le> round_even (y * 2 powi (52 - ?Ey))"
      by (rule round_even_mono)
    then have "of_int (round_even (x * 2 powi (52 - ?Ey))) * 2 powi (?Ey - 52)
                 \<le> of_int (round_even (y * 2 powi (52 - ?Ey))) * (2::real) powi (?Ey - 52)"
      by (simp add: mult_right_mono)
    then show ?thesis by (simp only: round_double_powi [OF x0] round_double_powi [OF y0] True)
  next
    case False
    then have lt: "?Ex + 1 \<le> ?Ey" using le by simp
    then have ey: "?Ey = binary_exponent y" "- 1022 \<le> binary_exponent y" by simp_all
    have "round_double x \<le> 2 powi (?Ex + 1)" by (rule round_double_upper [OF assms(1)])
    also have "\<dots> \<le> 2 powi ?Ey" using lt by (intro power_int_increasing) simp_all
    also have "\<dots> \<le> round_double y"
      unfolding ey(1) by (rule round_double_lower [OF ypos ey(2)])
    finally show ?thesis .
  qed
qed

lemma round_double_mono:
  assumes "x \<le> y"
  shows "round_double x \<le> round_double y"
proof -
  consider "0 < x" | "x \<le> 0" "0 \<le> y" | "y < 0" by linarith
  then show ?thesis
  proof cases
    case 1
    then show ?thesis using assms by (rule round_double_mono_pos)
  next
    case 2
    have "0 \<le> round_double (- x)" using 2(1) by (intro round_double_nonneg) simp
    then have "round_double x \<le> 0" by (simp add: round_double_minus)
    also have "0 \<le> round_double y" using 2(2) by (rule round_double_nonneg)
    finally show ?thesis .
  next
    case 3
    then have "round_double (- y) \<le> round_double (- x)"
      using assms by (intro round_double_mono_pos) simp_all
    then show ?thesis by (simp add: round_double_minus)
  qed
qed

lemma fl_add_mono: "x \<le> x' \<Longrightarrow> y \<le> y' \<Longrightarrow> fl_add x y \<le> fl_add x' y'"
  unfolding fl_add_def by (rule round_double_mono) simp

lemma fl_div_mono: "x \<le> x' \<Longrightarrow> 0 < y \<Longrightarrow> fl_div x y \<le> fl_div x' y"
  unfolding fl_div_def by (rule round_double_mono) (simp add: divide_right_mono)

lemma fl_sub_nonpos: "x \<le> y \<Longrightarrow> fl_sub x y \<le> 0"
  unfolding fl_sub_def using round_double_mono [of "x - y" 0] by (simp add: round_double_0)

text \<open>Facts that evaluate \<open>round_double\<close> at a numeral.\<close>

lemmas fl_eval =
  fl_add_def fl_sub_def fl_div_def round_double_def binary_exponent_def round_even_def
  bit_length.simps Let_def

section \<open>Pacing classifier: verdicts\<close>




lemma pacingInsight_four:
  assumes "secPerKm a = Some p1" "secPerKm b = Some p2" "secPerKm c = Some p3"
    "secPerKm d = Some p4"
  shows "pacingInsight [a, b, c, d]
           = Some (if \<bar>fl_sub (fl_div (fl_add (fl_add 0 p3) p4) 2)
                             (fl_div (fl_add (fl_add 0 p1) p2) 2)\<bar> < 5 then PacingEstavel
                   else if fl_sub (fl_div (fl_add (fl_add 0 p3) p4) 2)
                                  (fl_div (fl_add (fl_add 0 p1) p2) 2) < 0 then NegativeSplit
                   else Fade)"
  using assms by (simp add: pacingInsight_def Let_def valid_pace_def avg_def pace_num_def)

text \<open>
  C3, as stated, fails: four splits with paces 303, 302, 301, 300 s/km (each strictly
  faster than the one before) are classified as stable, because the half means differ by
  only 2 s/km and the stable check comes first.
\<close>

theorem pacingInsight_decreasing_counterexample:
  "map secPerKm (computeSplits1km
       \<lparr> distance = Some [0, 1000, 2000, 3000, 4000], time = Some [0, 303, 605, 906, 1206],
          heartrate = None, watts = None \<rparr> ''pace'')
     = [Some 303, Some 302, Some 301, Some 300]
   \<and> pacingInsight (computeSplits1km
       \<lparr> distance = Some [0, 1000, 2000, 3000, 4000], time = Some [0, 303, 605, 906, 1206],
          heartrate = None, watts = None \<rparr> ''pace'')
     \<noteq> Some NegativeSplit"
proof -
  let ?x = "computeSplits1km
       \<lparr> distance = Some [0, 1000, 2000, 3000, 4000], time = Some [0, 303, 605, 906, 1206],
          heartrate = None, watts = None \<rparr> ''pace''"
  obtain a b c d where x: "?x = [a, b, c, d]"
    and paces: "secPerKm a = Some 303" "secPerKm b = Some 302" "secPerKm c = Some 301"
      "secPerKm d = Some 300"
    by (simp add: computeSplits1km_def splits_loop_def split_step_def init_state_def upt_rec
          Let_def)
  have d: "fl_sub (fl_div (fl_add (fl_add 0 301) 300) 2) (fl_div (fl_add (fl_add 0 303) 302) 2)
             = - 2"
    by (simp add: fl_eval)
  have "pacingInsight [a, b, c, d] = Some PacingEstavel"
    by (simp add: pacingInsight_four [OF paces] d)
  then show ?thesis by (simp add: x paces)
qed

text \<open>
  C3, amended. With fewer than 4 valid-pace splits the verdict is \<open>None\<close>. For exactly four
  splits with strictly decreasing paces \<open>p1 > p2 > p3 > p4\<close> the verdict is the negative
  split exactly when the mean of the second half minus the mean of the first half, as the
  code computes it in double arithmetic, is at most \<open>- 5\<close>, and stable otherwise; it is
  never fade or \<open>None\<close>.
\<close>

theorem pacingInsight_few_or_four_decreasing:
  "(length (filter valid_pace spl) < 4 \<longrightarrow> pacingInsight spl = None)
   \<and> (secPerKm a = Some p1 \<and> secPerKm b = Some p2 \<and> secPerKm c = Some p3
        \<and> secPerKm d = Some p4 \<and> p1 > p2 \<and> p2 > p3 \<and> p3 > p4
      \<longrightarrow> pacingInsight [a, b, c, d]
            = Some (if fl_sub (fl_div (fl_add (fl_add 0 p3) p4) 2)
                              (fl_div (fl_add (fl_add 0 p1) p2) 2) \<le> - 5
                    then NegativeSplit else PacingEstavel))"
proof (intro conjI impI)
  assume "length (filter valid_pace spl) < 4"
  then show "pacingInsight spl = None"
    by (simp add: pacingInsight_def Let_def)
next
  assume h: "secPerKm a = Some p1 \<and> secPerKm b = Some p2 \<and> secPerKm c = Some p3
        \<and> secPerKm d = Some p4 \<and> p1 > p2 \<and> p2 > p3 \<and> p3 > p4"
  let ?first = "fl_div (fl_add (fl_add 0 p1) p2) 2"
  let ?second = "fl_div (fl_add (fl_add 0 p3) p4) 2"
  have "fl_add 0 p3 \<le> fl_add 0 p1" using h by (intro fl_add_mono) simp_all
  then have "fl_add (fl_add 0 p3) p4 \<le> fl_add (fl_add 0 p1) p2"
    using h by (intro fl_add_mono) simp_all
  then have "?second \<le> ?first" by (intro fl_div_mono) simp_all
  then have le: "fl_sub ?second ?first \<le> 0" by (rule fl_sub_nonpos)
  have "pacingInsight [a, b, c, d]
          = Some (if \<bar>fl_sub ?second ?first\<bar> < 5 then PacingEstavel
                  else if fl_sub ?second ?first < 0 then NegativeSplit else Fade)"
    using h by (intro pacingInsight_four) simp_all
  then show "pacingInsight [a, b, c, d]
            = Some (if fl_sub ?second ?first \<le> - 5 then NegativeSplit else PacingEstavel)"
    using le by auto
qed

theorem pacingInsight_few_or_four_decreasing_witness:
  "pacingInsight (computeSplits1km
       \<lparr> distance = Some [0, 1000, 2000, 3000], time = Some [0, 330, 650, 960],
          heartrate = None, watts = None \<rparr> ''pace'') = None
   \<and> pacingInsight (computeSplits1km
       \<lparr> distance = Some [0, 1000, 2000, 3000, 4000], time = Some [0, 330, 650, 960, 1260],
          heartrate = None, watts = None \<rparr> ''pace'') = Some NegativeSplit"
proof -
  let ?s3 = "computeSplits1km
       \<lparr> distance = Some [0, 1000, 2000, 3000], time = Some [0, 330, 650, 960],
          heartrate = None, watts = None \<rparr> ''pace''"
  let ?s4 = "computeSplits1km
       \<lparr> distance = Some [0, 1000, 2000, 3000, 4000], time = Some [0, 330, 650, 960, 1260],
          heartrate = None, watts = None \<rparr> ''pace''"
  have few: "length (filter valid_pace ?s3) < 4"
    by (simp add: computeSplits1km_def splits_loop_def split_step_def init_state_def upt_rec
          valid_pace_def Let_def)
  obtain a b c d where s4: "?s4 = [a, b, c, d]"
    and paces: "secPerKm a = Some 330" "secPerKm b = Some 320" "secPerKm c = Some 310"
      "secPerKm d = Some 300"
    by (simp add: computeSplits1km_def splits_loop_def split_step_def init_state_def upt_rec
          Let_def)
  have d: "fl_sub (fl_div (fl_add (fl_add 0 310) 300) 2) (fl_div (fl_add (fl_add 0 330) 320) 2)
             = - 20"
    by (simp add: fl_eval)
  have "pacingInsight ?s3 = None"
    using few pacingInsight_few_or_four_decreasing [of ?s3] by blast
  moreover have "pacingInsight ?s4 = Some NegativeSplit"
    using paces pacingInsight_few_or_four_decreasing [of "[]" a 330 b 320 c 310 d 300]
    by (simp add: s4 d)
  ultimately show ?thesis by simp
qed



section \<open>Segmenter: the loop\<close>

lemma splits_loop_0: "splits_loop md dst tms hr wt 0 = init_state"
  by (simp add: splits_loop_def)

lemma splits_loop_Suc:
  "splits_loop md dst tms hr wt (Suc n)
     = split_step md dst tms hr wt n (splits_loop md dst tms hr wt n)"
  by (simp add: splits_loop_def)

lemma split_step_skip: "\<not> nextKm st \<le> dst ! i \<Longrightarrow> split_step md dst tms hr wt i st = st"
  by (simp add: split_step_def)

lemma split_step_close:
  assumes "nextKm st \<le> dst ! i"
  shows "nextKm (split_step md dst tms hr wt i st) = nextKm st + 1000"
    and "startIdx (split_step md dst tms hr wt i st) = i"
    and "length (splits (split_step md dst tms hr wt i st)) = Suc (length (splits st))"
    and "map meters (splits (split_step md dst tms hr wt i st))
           = map meters (splits st) @ [dst ! i - dst ! startIdx st]"
    and "map seconds (splits (split_step md dst tms hr wt i st))
           = map seconds (splits st) @ [tms ! i - tms ! startIdx st]"
  using assms by (simp_all add: split_step_def Let_def)

lemma nextKm_count:
  "nextKm (splits_loop md dst tms hr wt n)
     = 1000 * (real (length (splits (splits_loop md dst tms hr wt n))) + 1)"
proof (induction n)
  case 0
  show ?case by (simp add: splits_loop_0 init_state_def)
next
  case (Suc n)
  show ?case
  proof (cases "nextKm (splits_loop md dst tms hr wt n) \<le> dst ! n")
    case True
    then show ?thesis using Suc by (simp add: splits_loop_Suc split_step_close)
  next
    case False
    then show ?thesis using Suc by (simp add: splits_loop_Suc split_step_skip)
  qed
qed

lemma consecutive_nth:
  assumes "\<forall>(a, b) \<in> set (zip xs (tl xs)). P a b" and "Suc i < length xs"
  shows "P (xs ! i) (xs ! Suc i)"
proof -
  have "i < length (zip xs (tl xs))" using assms(2) by simp
  then have "zip xs (tl xs) ! i \<in> set (zip xs (tl xs))" by (rule nth_mem)
  moreover have "zip xs (tl xs) ! i = (xs ! i, xs ! Suc i)"
    using assms(2) by (simp add: nth_tl)
  ultimately show ?thesis using assms(1) by auto
qed

text \<open>
  With the first sample and every per-sample step at most \<open>M \<le> 1000\<close>: each emitted split
  measures at least \<open>1000 - M\<close> and less than \<open>1000 + M\<close>, the split in progress opened
  within \<open>M\<close> above the last threshold passed, and the previous sample lies below the next
  threshold.
\<close>

lemma step_inv_loop:
  assumes first: "0 \<le> dst ! 0" "dst ! 0 \<le> M"
    and steps: "\<forall>i. Suc i < length dst \<longrightarrow> dst ! Suc i - dst ! i \<le> M"
    and M: "M \<le> 1000"
    and n: "n \<le> length dst"
  shows "(\<forall>m \<in> set (map meters (splits (splits_loop md dst tms hr wt n))).
            1000 - M \<le> m \<and> m < 1000 + M)
       \<and> nextKm (splits_loop md dst tms hr wt n) - 1000
            \<le> dst ! startIdx (splits_loop md dst tms hr wt n)
       \<and> dst ! startIdx (splits_loop md dst tms hr wt n)
            \<le> nextKm (splits_loop md dst tms hr wt n) - 1000 + M
       \<and> (0 < n \<longrightarrow> dst ! (n - 1) < nextKm (splits_loop md dst tms hr wt n))"
  using n
proof (induction n)
  case 0
  show ?case using first by (simp add: splits_loop_0 init_state_def)
next
  case (Suc n)
  let ?st = "splits_loop md dst tms hr wt n"
  have IH: "(\<forall>m \<in> set (map meters (splits ?st)). 1000 - M \<le> m \<and> m < 1000 + M)
       \<and> nextKm ?st - 1000 \<le> dst ! startIdx ?st
       \<and> dst ! startIdx ?st \<le> nextKm ?st - 1000 + M
       \<and> (0 < n \<longrightarrow> dst ! (n - 1) < nextKm ?st)"
    using Suc by simp
  have prev: "dst ! n < nextKm ?st + M"
  proof (cases n)
    case 0
    then show ?thesis using first M by (simp add: splits_loop_0 init_state_def)
  next
    case (Suc k)
    then have "dst ! Suc k - dst ! k \<le> M" using steps Suc.prems by simp
    moreover have "dst ! k < nextKm ?st" using IH Suc by simp
    ultimately show ?thesis using Suc by simp
  qed
  show ?case
  proof (cases "nextKm ?st \<le> dst ! n")
    case True
    show ?thesis
      using IH True prev M by (auto simp: splits_loop_Suc split_step_close)
  next
    case False
    then show ?thesis
      using IH by (auto simp: splits_loop_Suc split_step_skip)
  qed
qed

text \<open>
  With a non-negative first sample and every per-sample step at most \<open>M \<ge> 0\<close>: each
  emitted split measures less than \<open>1000 + M\<close>, the split in progress opened at or above
  the last threshold passed, and the previous sample lies below the next threshold unless
  a split closed at it.
\<close>

lemma upper_inv_loop:
  assumes first: "0 \<le> dst ! 0"
    and steps: "\<forall>i. Suc i < length dst \<longrightarrow> dst ! Suc i - dst ! i \<le> M"
    and M: "0 \<le> M"
    and n: "n \<le> length dst"
  shows "(\<forall>m \<in> set (map meters (splits (splits_loop md dst tms hr wt n))). m < 1000 + M)
       \<and> nextKm (splits_loop md dst tms hr wt n) - 1000
            \<le> dst ! startIdx (splits_loop md dst tms hr wt n)
       \<and> (0 < n \<longrightarrow> dst ! (n - 1) < nextKm (splits_loop md dst tms hr wt n)
                      \<or> startIdx (splits_loop md dst tms hr wt n) = n - 1)"
  using n
proof (induction n)
  case 0
  show ?case using first by (simp add: splits_loop_0 init_state_def)
next
  case (Suc n)
  let ?st = "splits_loop md dst tms hr wt n"
  have IH: "(\<forall>m \<in> set (map meters (splits ?st)). m < 1000 + M)
       \<and> nextKm ?st - 1000 \<le> dst ! startIdx ?st
       \<and> (0 < n \<longrightarrow> dst ! (n - 1) < nextKm ?st \<or> startIdx ?st = n - 1)"
    using Suc by simp
  show ?case
  proof (cases "nextKm ?st \<le> dst ! n")
    case True
    have "dst ! n - dst ! startIdx ?st < 1000 + M"
    proof (cases n)
      case 0
      then show ?thesis using M by (simp add: splits_loop_0 init_state_def)
    next
      case (Suc k)
      then have step: "dst ! Suc k - dst ! k \<le> M" using steps Suc.prems by simp
      have "dst ! k < nextKm ?st \<or> startIdx ?st = k" using IH Suc by simp
      then show ?thesis
      proof
        assume "dst ! k < nextKm ?st"
        then show ?thesis using step IH Suc by simp
      next
        assume "startIdx ?st = k"
        then show ?thesis using step M Suc by simp
      qed
    qed
    then show ?thesis
      using IH True by (auto simp: splits_loop_Suc split_step_close)
  next
    case False
    then show ?thesis
      using IH by (auto simp: splits_loop_Suc split_step_skip)
  qed
qed

text \<open>
  With a non-decreasing distance whose first sample and steps are at most 1000: after
  \<open>n > 0\<close> samples the last one lies between the last threshold passed and the next one.
\<close>

lemma mono_inv_loop:
  assumes first: "0 \<le> dst ! 0" "dst ! 0 \<le> 1000"
    and steps: "\<forall>i. Suc i < length dst
                  \<longrightarrow> dst ! i \<le> dst ! Suc i \<and> dst ! Suc i - dst ! i \<le> 1000"
    and n: "n \<le> length dst"
  shows "0 < n \<longrightarrow> nextKm (splits_loop md dst tms hr wt n) - 1000 \<le> dst ! (n - 1)
                    \<and> dst ! (n - 1) < nextKm (splits_loop md dst tms hr wt n)"
  using n
proof (induction n)
  case 0
  show ?case by simp
next
  case (Suc n)
  let ?st = "splits_loop md dst tms hr wt n"
  have IH: "0 < n \<longrightarrow> nextKm ?st - 1000 \<le> dst ! (n - 1) \<and> dst ! (n - 1) < nextKm ?st"
    using Suc by simp
  have prev: "nextKm ?st - 1000 \<le> dst ! n \<and> dst ! n < nextKm ?st + 1000"
  proof (cases n)
    case 0
    then show ?thesis using first by (simp add: splits_loop_0 init_state_def)
  next
    case (Suc k)
    then have "dst ! k \<le> dst ! Suc k \<and> dst ! Suc k - dst ! k \<le> 1000"
      using steps Suc.prems by simp
    moreover have "nextKm ?st - 1000 \<le> dst ! k \<and> dst ! k < nextKm ?st"
      using IH Suc by simp
    ultimately show ?thesis using Suc by simp
  qed
  show ?case
  proof (cases "nextKm ?st \<le> dst ! n")
    case True
    show ?thesis
      using True prev by (auto simp: splits_loop_Suc split_step_close)
  next
    case False
    then show ?thesis
      using prev by (auto simp: splits_loop_Suc split_step_skip)
  qed
qed

section \<open>Segmenter: where splits open and close\<close>

lemma bounds_length:
  "length (split_bounds md dst tms hr wt n) = length (splits (splits_loop md dst tms hr wt n))"
proof (induction n)
  case 0
  show ?case by (simp add: splits_loop_0 init_state_def)
next
  case (Suc n)
  then show ?case
    by (cases "nextKm (splits_loop md dst tms hr wt n) \<le> dst ! n")
       (simp_all add: splits_loop_Suc split_step_close split_step_skip Let_def)
qed

lemma bounds_meters:
  "map meters (splits (splits_loop md dst tms hr wt n))
     = map (\<lambda>(s, e). dst ! e - dst ! s) (split_bounds md dst tms hr wt n)"
proof (induction n)
  case 0
  show ?case by (simp add: splits_loop_0 init_state_def)
next
  case (Suc n)
  then show ?case
    by (cases "nextKm (splits_loop md dst tms hr wt n) \<le> dst ! n")
       (simp_all add: splits_loop_Suc split_step_close split_step_skip Let_def)
qed

lemma bounds_seconds:
  "map seconds (splits (splits_loop md dst tms hr wt n))
     = map (\<lambda>(s, e). tms ! e - tms ! s) (split_bounds md dst tms hr wt n)"
proof (induction n)
  case 0
  show ?case by (simp add: splits_loop_0 init_state_def)
next
  case (Suc n)
  then show ?case
    by (cases "nextKm (splits_loop md dst tms hr wt n) \<le> dst ! n")
       (simp_all add: splits_loop_Suc split_step_close split_step_skip Let_def)
qed

lemma bounds_startIdx:
  "startIdx (splits_loop md dst tms hr wt n) = last (0 # map snd (split_bounds md dst tms hr wt n))"
proof (induction n)
  case 0
  show ?case by (simp add: splits_loop_0 init_state_def)
next
  case (Suc n)
  then show ?case
    by (cases "nextKm (splits_loop md dst tms hr wt n) \<le> dst ! n")
       (simp_all add: splits_loop_Suc split_step_close split_step_skip Let_def)
qed

lemma bounds_adjacent:
  "map fst (split_bounds md dst tms hr wt n) @ [startIdx (splits_loop md dst tms hr wt n)]
     = 0 # map snd (split_bounds md dst tms hr wt n)"
proof (induction n)
  case 0
  show ?case by (simp add: splits_loop_0 init_state_def)
next
  case (Suc n)
  then show ?case
    by (cases "nextKm (splits_loop md dst tms hr wt n) \<le> dst ! n")
       (simp_all add: splits_loop_Suc split_step_close split_step_skip Let_def)
qed

lemma bounds_range:
  "\<forall>(s, e) \<in> set (split_bounds md dst tms hr wt n). s \<le> e \<and> e < n"
proof (induction n)
  case 0
  show ?case by simp
next
  case (Suc n)
  have "startIdx (splits_loop md dst tms hr wt n) \<le> n"
  proof (cases "split_bounds md dst tms hr wt n = []")
    case True
    then show ?thesis by (simp add: bounds_startIdx)
  next
    case False
    then have "last (split_bounds md dst tms hr wt n) \<in> set (split_bounds md dst tms hr wt n)"
      by simp
    then have "snd (last (split_bounds md dst tms hr wt n)) < n"
      using Suc by (auto simp: case_prod_unfold)
    then show ?thesis using False by (simp add: bounds_startIdx last_map)
  qed
  then show ?case using Suc by (auto simp: Let_def)
qed

lemma meters_telescope:
  "sum_list (map meters (splits (splits_loop md dst tms hr wt n)))
     = dst ! startIdx (splits_loop md dst tms hr wt n) - dst ! 0"
proof (induction n)
  case 0
  show ?case by (simp add: splits_loop_0 init_state_def)
next
  case (Suc n)
  then show ?case
    by (cases "nextKm (splits_loop md dst tms hr wt n) \<le> dst ! n")
       (simp_all add: splits_loop_Suc split_step_close split_step_skip)
qed

lemma seconds_telescope:
  "sum_list (map seconds (splits (splits_loop md dst tms hr wt n)))
     = tms ! startIdx (splits_loop md dst tms hr wt n) - tms ! 0"
proof (induction n)
  case 0
  show ?case by (simp add: splits_loop_0 init_state_def)
next
  case (Suc n)
  then show ?case
    by (cases "nextKm (splits_loop md dst tms hr wt n) \<le> dst ! n")
       (simp_all add: splits_loop_Suc split_step_close split_step_skip)
qed

text \<open>
  C10. For a valid input, split \<open>k\<close> measures the distance and the time between the samples
  at its opening and closing indices, the first split opens at sample 0, each later split
  opens at the index where the one before closed, and so the meters (seconds) of all
  splits add up to the distance (time) between sample 0 and the closing index of the last
  split.
\<close>

theorem computeSplits1km_boundary_adjacent:
  fixes strm :: streams and md :: string
  assumes valid: "distance strm = Some dst" "time strm = Some tms" "length dst = length tms"
  defines "spl \<equiv> computeSplits1km strm md"
    and "bs \<equiv> split_bounds md dst tms (heartrate strm) (watts strm) (length dst)"
  shows "length bs = length spl
       \<and> (\<forall>k < length spl. meters (spl ! k) = dst ! snd (bs ! k) - dst ! fst (bs ! k)
                           \<and> seconds (spl ! k) = tms ! snd (bs ! k) - tms ! fst (bs ! k)
                           \<and> fst (bs ! k) \<le> snd (bs ! k) \<and> snd (bs ! k) < length dst)
       \<and> (\<forall>k. Suc k < length bs \<longrightarrow> fst (bs ! Suc k) = snd (bs ! k))
       \<and> (spl \<noteq> [] \<longrightarrow> fst (hd bs) = 0
              \<and> sum_list (map meters spl) = dst ! snd (last bs) - dst ! 0
              \<and> sum_list (map seconds spl) = tms ! snd (last bs) - tms ! 0)"
proof -
  let ?st = "splits_loop md dst tms (heartrate strm) (watts strm) (length dst)"
  have spl: "spl = splits ?st"
    using valid by (simp add: spl_def computeSplits1km_def)
  have len: "length bs = length spl"
    by (simp add: spl bs_def bounds_length)
  have each: "meters (spl ! k) = dst ! snd (bs ! k) - dst ! fst (bs ! k)
            \<and> seconds (spl ! k) = tms ! snd (bs ! k) - tms ! fst (bs ! k)
            \<and> fst (bs ! k) \<le> snd (bs ! k) \<and> snd (bs ! k) < length dst" if k: "k < length spl" for k
  proof -
    have "map meters spl ! k = map (\<lambda>(s, e). dst ! e - dst ! s) bs ! k"
      by (simp add: spl bs_def bounds_meters)
    moreover have "map seconds spl ! k = map (\<lambda>(s, e). tms ! e - tms ! s) bs ! k"
      by (simp add: spl bs_def bounds_seconds)
    moreover have "bs ! k \<in> set bs" using k len by simp
    then have "fst (bs ! k) \<le> snd (bs ! k) \<and> snd (bs ! k) < length dst"
      using bounds_range [of md dst tms "heartrate strm" "watts strm" "length dst"]
      by (auto simp: bs_def case_prod_unfold)
    ultimately show ?thesis using k len by (simp add: case_prod_unfold)
  qed
  have adj: "fst (bs ! Suc k) = snd (bs ! k)" if k: "Suc k < length bs" for k
  proof -
    have "(map fst bs @ [startIdx ?st]) ! Suc k = (0 # map snd bs) ! Suc k"
      by (simp only: bs_def bounds_adjacent)
    then show ?thesis using k by (simp add: nth_append)
  qed
  have tot: "fst (hd bs) = 0
              \<and> sum_list (map meters spl) = dst ! snd (last bs) - dst ! 0
              \<and> sum_list (map seconds spl) = tms ! snd (last bs) - tms ! 0" if ne: "spl \<noteq> []"
  proof -
    have bne: "bs \<noteq> []" using ne len by auto
    have "(map fst bs @ [startIdx ?st]) ! 0 = (0 # map snd bs) ! 0"
      by (simp only: bs_def bounds_adjacent)
    then have "fst (hd bs) = 0" using bne by (simp add: nth_append hd_conv_nth)
    moreover have "startIdx ?st = snd (last bs)"
      using bne by (simp add: bs_def bounds_startIdx last_map)
    ultimately show ?thesis
      by (simp add: spl meters_telescope seconds_telescope)
  qed
  show ?thesis using len each adj tot by blast
qed

theorem computeSplits1km_boundary_adjacent_witness:
  "split_bounds ''pace'' [0, 600, 1200, 1900, 2100] [0, 180, 360, 500, 620] None None 5
     = [(0, 2), (2, 4)]
   \<and> map meters (computeSplits1km
       \<lparr> distance = Some [0, 600, 1200, 1900, 2100], time = Some [0, 180, 360, 500, 620],
          heartrate = None, watts = None \<rparr> ''pace'') = [1200, 900]
   \<and> sum_list (map meters (computeSplits1km
       \<lparr> distance = Some [0, 600, 1200, 1900, 2100], time = Some [0, 180, 360, 500, 620],
          heartrate = None, watts = None \<rparr> ''pace'')) = 2100 - 0
   \<and> sum_list (map seconds (computeSplits1km
       \<lparr> distance = Some [0, 600, 1200, 1900, 2100], time = Some [0, 180, 360, 500, 620],
          heartrate = None, watts = None \<rparr> ''pace'')) = 620 - 0"
proof -
  let ?X = "\<lparr> distance = Some [0, 600, 1200, 1900, 2100], time = Some [0, 180, 360, 500, 620],
          heartrate = None, watts = None \<rparr>"
  let ?d = "[0, 600, 1200, 1900, 2100] :: real list"
  let ?t = "[0, 180, 360, 500, 620] :: real list"
  have bs: "split_bounds ''pace'' ?d ?t None None 5 = [(0, 2), (2, 4)]"
    by (simp add: eval_nat_numeral splits_loop_def split_step_def init_state_def upt_rec Let_def)
  have bs': "split_bounds ''pace'' ?d ?t (heartrate ?X) (watts ?X) (length ?d)
               = [(0, 2), (2, 4)]"
    by (simp add: splits_loop_def split_step_def init_state_def upt_rec Let_def)
  have ms: "map meters (computeSplits1km ?X ''pace'') = [1200, 900]"
    by (simp add: computeSplits1km_def splits_loop_def split_step_def init_state_def upt_rec
          Let_def)
  then have ne: "computeSplits1km ?X ''pace'' \<noteq> []"
    by auto
  have v: "distance ?X = Some ?d" "time ?X = Some ?t" "length ?d = length ?t"
    by simp_all
  note th = computeSplits1km_boundary_adjacent [OF v, of "''pace''", unfolded bs']
  have "sum_list (map meters (computeSplits1km ?X ''pace'')) = 2100 - 0
      \<and> sum_list (map seconds (computeSplits1km ?X ''pace'')) = 620 - 0"
    using th [THEN conjunct2, THEN conjunct2, THEN conjunct2, THEN mp, OF ne] by simp
  then show ?thesis using bs ms by simp
qed

section \<open>Segmenter: number and length of the splits\<close>

text \<open>
  C1, as stated, fails: when one sample jumps over two thresholds (distance 0, then
  2500 m) only one split is emitted, while \<open>\<lfloor>2500 / 1000\<rfloor> = 2\<close>; and when the distance
  falls back after a threshold (0, 1000, 500 m) the split stays, while
  \<open>\<lfloor>500 / 1000\<rfloor> = 0\<close>.
\<close>

theorem computeSplits1km_count_counterexample:
  "length (computeSplits1km
       \<lparr> distance = Some [0, 2500], time = Some [0, 600],
          heartrate = None, watts = None \<rparr> ''pace'') = 1
   \<and> nat \<lfloor>last [0, 2500 :: real] / 1000\<rfloor> = 2
   \<and> length (computeSplits1km
       \<lparr> distance = Some [0, 1000, 500], time = Some [0, 300, 310],
          heartrate = None, watts = None \<rparr> ''pace'') = 1
   \<and> nat \<lfloor>last [0, 1000, 500 :: real] / 1000\<rfloor> = 0"
  by (simp add: computeSplits1km_def splits_loop_def split_step_def init_state_def upt_rec Let_def)

text \<open>
  C1, amended. For a valid input whose distance never decreases, starts between 0 and
  1000 m and grows by at most 1000 m from one sample to the next, the number \<open>k\<close> of
  splits is the floor of the last distance sample over 1000 (and 0 for empty arrays). The
  last sample lies below the threshold \<open>1000 (k + 1)\<close>: the samples left after the last
  threshold reached add no split.
\<close>

theorem computeSplits1km_count:
  assumes valid: "distance strm = Some dst" "time strm = Some tms" "length dst = length tms"
    and first: "dst \<noteq> [] \<longrightarrow> 0 \<le> hd dst \<and> hd dst \<le> 1000"
    and steps: "\<forall>(a, b) \<in> set (zip dst (tl dst)). a \<le> b \<and> b - a \<le> 1000"
  shows "length (computeSplits1km strm md)
           = nat \<lfloor>(if dst = [] then 0 else last dst) / 1000\<rfloor>
       \<and> (if dst = [] then 0 else last dst)
           < 1000 * (real (length (computeSplits1km strm md)) + 1)"
proof (cases "dst = []")
  case True
  then show ?thesis
    using valid by (simp add: computeSplits1km_def splits_loop_0 init_state_def)
next
  case False
  let ?n = "length dst"
  let ?st = "splits_loop md dst tms (heartrate strm) (watts strm) ?n"
  have f: "0 \<le> dst ! 0" "dst ! 0 \<le> 1000"
    using first False by (simp_all add: hd_conv_nth)
  have s: "\<forall>i. Suc i < length dst
             \<longrightarrow> dst ! i \<le> dst ! Suc i \<and> dst ! Suc i - dst ! i \<le> 1000"
    using consecutive_nth [OF steps] by blast
  have pos: "0 < ?n" using False by simp
  have "nextKm ?st - 1000 \<le> dst ! (?n - 1) \<and> dst ! (?n - 1) < nextKm ?st"
    using mono_inv_loop [OF f s order_refl, of md tms "heartrate strm" "watts strm"] pos
    by blast
  then have bounds: "1000 * real (length (splits ?st)) \<le> last dst
           \<and> last dst < 1000 * (real (length (splits ?st)) + 1)"
    using False by (simp add: nextKm_count last_conv_nth)
  then have "\<lfloor>last dst / 1000\<rfloor> = int (length (splits ?st))"
    by (intro floor_unique) (simp_all add: field_simps)
  moreover have "computeSplits1km strm md = splits ?st"
    using valid by (simp add: computeSplits1km_def)
  ultimately show ?thesis using False bounds by simp
qed

theorem computeSplits1km_count_witness:
  "length (computeSplits1km
       \<lparr> distance = Some [0, 600, 1200, 1900, 2100], time = Some [0, 180, 360, 500, 620],
          heartrate = None, watts = None \<rparr> ''pace'') = 2"
  using computeSplits1km_count
          [of "\<lparr> distance = Some [0, 600, 1200, 1900, 2100], time = Some [0, 180, 360, 500, 620],
          heartrate = None, watts = None \<rparr>"
              "[0, 600, 1200, 1900, 2100]" "[0, 180, 360, 500, 620]" "''pace''"]
  by simp

text \<open>
  C2, as stated, fails: thresholds are absolute, so a split that opens above its
  threshold is shorter than 1000 m. With distances 0, 999, 1002, 1999, 2001 the second
  split measures 999 m.
\<close>

theorem computeSplits1km_meters_counterexample:
  "map meters (computeSplits1km
       \<lparr> distance = Some [0, 999, 1002, 1999, 2001], time = Some [0, 300, 301, 600, 601],
          heartrate = None, watts = None \<rparr> ''pace'') = [1002, 999]
   \<and> \<not> (\<forall>s \<in> set (computeSplits1km
       \<lparr> distance = Some [0, 999, 1002, 1999, 2001], time = Some [0, 300, 301, 600, 601],
          heartrate = None, watts = None \<rparr> ''pace''). 1000 \<le> meters s)"
  by (simp add: computeSplits1km_def splits_loop_def split_step_def init_state_def upt_rec Let_def)

text \<open>
  C2, amended. For a valid input whose first distance sample is not negative and whose
  distance grows by at most \<open>M \<ge> 0\<close> from one sample to the next, every split measures
  less than \<open>1000 + M\<close> metres. A split can be shorter than 1000 m: it measures at least
  \<open>1000 - M\<close> metres when, in addition, the first sample is at most \<open>M\<close> and \<open>M \<le> 1000\<close>.
\<close>

theorem computeSplits1km_meters_range:
  assumes valid: "distance strm = Some dst" "time strm = Some tms" "length dst = length tms"
    and first: "dst \<noteq> [] \<longrightarrow> 0 \<le> hd dst"
    and steps: "\<forall>(a, b) \<in> set (zip dst (tl dst)). b - a \<le> M"
    and M: "0 \<le> M"
  shows "\<forall>s \<in> set (computeSplits1km strm md).
           meters s < 1000 + M \<and> (hd dst \<le> M \<and> M \<le> 1000 \<longrightarrow> 1000 - M \<le> meters s)"
proof (cases "dst = []")
  case True
  then show ?thesis
    using valid by (simp add: computeSplits1km_def splits_loop_0 init_state_def)
next
  case False
  let ?st = "splits_loop md dst tms (heartrate strm) (watts strm) (length dst)"
  have f: "0 \<le> dst ! 0"
    using first False by (simp add: hd_conv_nth)
  have s: "\<forall>i. Suc i < length dst \<longrightarrow> dst ! Suc i - dst ! i \<le> M"
    using consecutive_nth [OF steps] by blast
  have up: "\<forall>m \<in> set (map meters (splits ?st)). m < 1000 + M"
    using upper_inv_loop [OF f s M order_refl, of md tms "heartrate strm" "watts strm"]
    by blast
  have lo: "\<forall>m \<in> set (map meters (splits ?st)). 1000 - M \<le> m"
    if h: "hd dst \<le> M \<and> M \<le> 1000"
  proof -
    have f2: "dst ! 0 \<le> M" using h False by (simp add: hd_conv_nth)
    have "M \<le> 1000" using h by simp
    then show ?thesis
      using step_inv_loop [OF f f2 s _ order_refl, of md tms "heartrate strm" "watts strm"]
      by blast
  qed
  have "computeSplits1km strm md = splits ?st"
    using valid by (simp add: computeSplits1km_def)
  then show ?thesis using up lo by simp
qed

theorem computeSplits1km_meters_range_witness:
  "list_all (\<lambda>s. 1 \<le> meters s \<and> meters s < 1999) (computeSplits1km
       \<lparr> distance = Some [0, 999, 1002, 1999, 2001], time = Some [0, 300, 301, 600, 601],
          heartrate = None, watts = None \<rparr> ''pace'')
   \<and> list_all (\<lambda>s. meters s < 3500) (computeSplits1km
       \<lparr> distance = Some [0, 2500, 2501], time = Some [0, 600, 601],
          heartrate = None, watts = None \<rparr> ''pace'')"
proof -
  have "list_all (\<lambda>s. 1 \<le> meters s \<and> meters s < 1999) (computeSplits1km
       \<lparr> distance = Some [0, 999, 1002, 1999, 2001], time = Some [0, 300, 301, 600, 601],
          heartrate = None, watts = None \<rparr> ''pace'')"
    using computeSplits1km_meters_range
            [of "\<lparr> distance = Some [0, 999, 1002, 1999, 2001], time = Some [0, 300, 301, 600, 601],
          heartrate = None, watts = None \<rparr>"
                "[0, 999, 1002, 1999, 2001]" "[0, 300, 301, 600, 601]" 999 "''pace''"]
    by (simp add: list_all_iff)
  moreover have "list_all (\<lambda>s. meters s < 3500) (computeSplits1km
       \<lparr> distance = Some [0, 2500, 2501], time = Some [0, 600, 601],
          heartrate = None, watts = None \<rparr> ''pace'')"
    using computeSplits1km_meters_range
            [of "\<lparr> distance = Some [0, 2500, 2501], time = Some [0, 600, 601],
          heartrate = None, watts = None \<rparr>"
                "[0, 2500, 2501]" "[0, 600, 601]" 2500 "''pace''"]
    by (simp add: list_all_iff)
  ultimately show ?thesis by simp
qed

section \<open>Delta engine: the pace delta of a faster run\<close>

text \<open>
  C7. For a current record of type \<open>run\<close> with moving time 3600 s over 10000 m and a matched
  prior record with moving time 3660 s over 10000 m, \<open>compareCurrentVsPrev\<close> reports mode
  \<open>pace\<close> and the pace delta \<open>3600 / 10 - 3660 / 10\<close> seconds per km, which is negative:
  the current activity is faster. (The type of the prior record is not read.)
\<close>

theorem compareCurrentVsPrev_pace_delta:
  assumes "activity_type (activity current) = Some ''run''"
    and "moving_time_s (activity current) = Some 3600"
    and "distance_m (activity current) = Some 10000"
    and "moving_time_s (activity prev) = Some 3660"
    and "distance_m (activity prev) = Some 10000"
  shows "\<exists>c. compareCurrentVsPrev current (Some prev) = Some c \<and> cmp_mode c = ''pace''
            \<and> delta_avg_pace_sec_per_km (delta c) = Some (3600 / 10 - 3660 / 10)
            \<and> 3600 / 10 - 3660 / 10 < (0 :: real)"
  using assms
  by (simp add: compareCurrentVsPrev_def Let_def isPaceBased_def toLowerCase_def
        avgPaceSecPerKm_def safeNum_def diff_known_def)

theorem compareCurrentVsPrev_pace_delta_witness:
  "map_option (\<lambda>c. (cmp_mode c, delta_avg_pace_sec_per_km (delta c)))
     (compareCurrentVsPrev
        \<lparr> activity = \<lparr> activity_id = Some 12, activity_type = Some ''run'',
             sport_type = Some ''Run'', start_date = Some ''2024-03-10T07:00:00Z'',
             start_date_local = Some ''2024-03-10T08:00:00Z'', distance_m = Some 10000,
             moving_time_s = Some 3600, total_elevation_gain_m = Some 80,
             average_heartrate = Some 152, average_watts = None \<rparr>,
           derived = None \<rparr>
        (Some \<lparr> activity = \<lparr> activity_id = Some 11, activity_type = Some ''run'',
             sport_type = Some ''Run'', start_date = Some ''2024-03-01T07:00:00Z'',
             start_date_local = Some ''2024-03-01T08:00:00Z'', distance_m = Some 10000,
             moving_time_s = Some 3660, total_elevation_gain_m = Some 75,
             average_heartrate = Some 155, average_watts = None \<rparr>,
           derived = None \<rparr>))
   = Some (''pace'', Some (- 6))"
proof -
  let ?cur = "\<lparr> activity = \<lparr> activity_id = Some 12, activity_type = Some ''run'',
             sport_type = Some ''Run'', start_date = Some ''2024-03-10T07:00:00Z'',
             start_date_local = Some ''2024-03-10T08:00:00Z'', distance_m = Some 10000,
             moving_time_s = Some 3600, total_elevation_gain_m = Some 80,
             average_heartrate = Some 152, average_watts = None \<rparr>,
           derived = None \<rparr>"
  let ?old = "\<lparr> activity = \<lparr> activity_id = Some 11, activity_type = Some ''run'',
             sport_type = Some ''Run'', start_date = Some ''2024-03-01T07:00:00Z'',
             start_date_local = Some ''2024-03-01T08:00:00Z'', distance_m = Some 10000,
             moving_time_s = Some 3660, total_elevation_gain_m = Some 75,
             average_heartrate = Some 155, average_watts = None \<rparr>,
           derived = None \<rparr>"
  obtain c where "compareCurrentVsPrev ?cur (Some ?old) = Some c" "cmp_mode c = ''pace''"
    "delta_avg_pace_sec_per_km (delta c) = Some (3600 / 10 - 3660 / 10)"
    using compareCurrentVsPrev_pace_delta [of ?cur ?old] by auto
  then show ?thesis by simp
qed

section \<open>Record store: reading back what was appended\<close>

lemma collect_parsed_eq: "collect_parsed parse tail = List.map_filter parse tail"
proof -
  have "fold (\<lambda>line out. case parse line of Some r \<Rightarrow> out @ [r] | None \<Rightarrow> out) tail acc
          = acc @ List.map_filter parse tail" for acc
    by (induction tail arbitrary: acc) (auto split: option.splits)
  then show ?thesis by (simp add: collect_parsed_def)
qed

lemma split_on_line:
  "c \<notin> set l \<Longrightarrow> split_on c (l @ c # rest) = l # split_on c rest"
  by (induction l) auto

lemma split_on_lines:
  "\<forall>l \<in> set ls. c \<notin> set l \<Longrightarrow> split_on c (concat (map (\<lambda>l. l @ [c]) ls)) = ls @ [[]]"
  by (induction ls) (auto simp: split_on_line)

lemma fold_write_content:
  "file_content (fold (write_event stringify) es f)
     = file_content f @ concat (map (\<lambda>e. event_line stringify e @ [newline]) es)"
  by (induction es arbitrary: f)
     (auto simp: write_event_def appendStore_def file_content_def event_line_def split: log_event.splits)

lemma fold_write_None:
  "fold (write_event stringify) es f = None \<longleftrightarrow> es = [] \<and> f = None"
proof (induction es arbitrary: f)
  case Nil show ?case by simp
next
  case (Cons e es)
  have "write_event stringify e f \<noteq> None"
    by (simp add: write_event_def appendStore_def split: log_event.splits)
  then show ?case using Cons by simp
qed

lemma readStore_log:
  assumes nl: "\<forall>e \<in> set es. newline \<notin> set (event_line stringify e)"
    and lim: "length (filter (\<lambda>l. l \<noteq> []) (map (event_line stringify) es)) \<le> limit"
  shows "readStore parse (log_after stringify es) limit
           = List.map_filter parse (filter (\<lambda>l. l \<noteq> []) (map (event_line stringify) es))"
proof (cases "es = []")
  case True
  then show ?thesis by (simp add: log_after_def readStore_def)
next
  case False
  then obtain content where c: "log_after stringify es = Some content"
    using fold_write_None [of stringify es None] by (auto simp: log_after_def)
  have "file_content (log_after stringify es)
          = concat (map (\<lambda>l. l @ [newline]) (map (event_line stringify) es))"
    using fold_write_content [of stringify es None]
    by (simp add: log_after_def file_content_def comp_def)
  then have "content = concat (map (\<lambda>l. l @ [newline]) (map (event_line stringify) es))"
    using c by (simp add: file_content_def)
  moreover have "\<forall>l \<in> set (map (event_line stringify) es). newline \<notin> set l"
    using nl by simp
  ultimately have sp: "split_on newline content = map (event_line stringify) es @ [[]]"
    using split_on_lines by blast
  show ?thesis
    using lim by (simp add: readStore_def c sp Let_def collect_parsed_eq)
qed

lemma event_line_simps:
  "event_line stringify (Appended r) = stringify r"
  "event_line stringify (Corrupted s) = s"
  by (simp_all add: event_line_def)

lemma appended_records_simps:
  "appended_records [] = []"
  "appended_records (Appended r # es) = r # appended_records es"
  "appended_records (Corrupted s # es) = appended_records es"
  by (simp_all add: appended_records_def)

lemma corrupted_lines_simps:
  "corrupted_lines [] = []"
  "corrupted_lines (Appended r # es) = corrupted_lines es"
  "corrupted_lines (Corrupted s # es) = s # corrupted_lines es"
  by (simp_all add: corrupted_lines_def)

lemma events_length:
  "length (appended_records es) + length (corrupted_lines es) = length es"
proof (induction es)
  case Nil
  show ?case by (simp add: appended_records_simps corrupted_lines_simps)
next
  case (Cons e es)
  then show ?case by (cases e) (simp_all add: appended_records_simps corrupted_lines_simps)
qed

lemma corrupted_lines_mem: "Corrupted s \<in> set es \<Longrightarrow> s \<in> set (corrupted_lines es)"
proof (induction es)
  case Nil
  then show ?case by simp
next
  case (Cons e es)
  then show ?case by (cases e) (auto simp: corrupted_lines_simps)
qed

lemma parse_event_lines:
  assumes "\<forall>r. parse (stringify r) = Some r" and "\<forall>r. stringify r \<noteq> []"
    and "\<forall>s \<in> set (corrupted_lines es). parse s = None"
  shows "List.map_filter parse (filter (\<lambda>l. l \<noteq> []) (map (event_line stringify) es))
           = appended_records es"
  using assms(3)
proof (induction es)
  case Nil
  show ?case by (simp add: appended_records_simps)
next
  case (Cons e es)
  then have IH: "List.map_filter parse (filter (\<lambda>l. l \<noteq> []) (map (event_line stringify) es))
           = appended_records es"
    by (cases e) (simp_all add: corrupted_lines_simps)
  show ?case
  proof (cases e)
    case (Appended r)
    then show ?thesis
      using IH assms(1,2) by (simp add: event_line_simps appended_records_simps)
  next
    case (Corrupted s)
    then have "parse s = None" using Cons.prems by (simp add: corrupted_lines_simps)
    then show ?thesis
      using IH Corrupted by (simp add: event_line_simps appended_records_simps)
  qed
qed

text \<open>
  C6, as stated, fails: the tail of \<open>limit\<close> lines is cut before the lines are parsed, so
  a corrupted line takes the place of a record. Two records (here the JSON values
  \<open>true\<close> and \<open>false\<close>) with one corrupted line between them, read with \<open>limit = 2\<close>,
  give back the second record only.
\<close>

theorem readStore_round_trip_counterexample:
  "appended_records [Appended True, Corrupted ''{oops'', Appended False] = [True, False]
   \<and> readStore (\<lambda>s. if s = ''true'' then Some True else if s = ''false'' then Some False else None)
       (log_after (\<lambda>b. if b then ''true'' else ''false'')
          [Appended True, Corrupted ''{oops'', Appended False]) 2
     = [False]"
  by (simp add: appended_records_simps readStore_def log_after_def write_event_def
        appendStore_def file_content_def newline_def collect_parsed_def)

text \<open>
  C6, amended. Let the log be written by appends of records and by corrupted lines
  (lines without a line break that do not parse), where a record's text parses back to the
  record, is not empty and holds no line break. Reading with a limit of at least the
  number of appended records plus the number of corrupted lines returns exactly the
  appended records, in order. Without corrupted lines this is any limit of at least the
  number of records.
\<close>

theorem readStore_round_trip:
  assumes codec: "\<forall>r. parse (stringify r) = Some r" "\<forall>r. newline \<notin> set (stringify r)"
      "\<forall>r. stringify r \<noteq> []"
    and junk: "\<forall>s \<in> set (corrupted_lines events). newline \<notin> set s \<and> parse s = None"
    and lim: "length (appended_records events) + length (corrupted_lines events) \<le> limit"
  shows "readStore parse (log_after stringify events) limit = appended_records events"
proof -
  have nl: "\<forall>e \<in> set events. newline \<notin> set (event_line stringify e)"
  proof
    fix e assume e: "e \<in> set events"
    show "newline \<notin> set (event_line stringify e)"
    proof (cases e)
      case (Appended r)
      then show ?thesis using codec(2) by (simp add: event_line_simps)
    next
      case (Corrupted s)
      then have "s \<in> set (corrupted_lines events)"
        using e by (simp add: corrupted_lines_mem)
      then show ?thesis using junk Corrupted by (simp add: event_line_simps)
    qed
  qed
  have "length (filter (\<lambda>l. l \<noteq> []) (map (event_line stringify) events)) \<le> length events"
    using length_filter_le [of "\<lambda>l. l \<noteq> []" "map (event_line stringify) events"] by simp
  then have "length (filter (\<lambda>l. l \<noteq> []) (map (event_line stringify) events)) \<le> limit"
    using lim events_length [of events] by linarith
  then have "readStore parse (log_after stringify events) limit
           = List.map_filter parse (filter (\<lambda>l. l \<noteq> []) (map (event_line stringify) events))"
    using nl by (rule readStore_log [rotated])
  also have "\<dots> = appended_records events"
    using codec(1,3) junk by (intro parse_event_lines) auto
  finally show ?thesis .
qed

theorem readStore_round_trip_witness:
  "readStore (\<lambda>s. if s = ''true'' then Some True else if s = ''false'' then Some False else None)
       (log_after (\<lambda>b. if b then ''true'' else ''false'')
          [Appended True, Corrupted ''{oops'', Appended False]) 3
     = [True, False]
   \<and> readStore (\<lambda>s. if s = ''true'' then Some True else if s = ''false'' then Some False else None)
       (log_after (\<lambda>b. if b then ''true'' else ''false'')
          [Appended True, Appended False]) 2
     = [True, False]"
proof -
  let ?parse = "(\<lambda>s. if s = ''true'' then Some True else if s = ''false'' then Some False else None)"
  let ?stringify = "(\<lambda>b. if b then ''true'' else ''false'')"
  have codec: "\<forall>r. ?parse (?stringify r) = Some r" "\<forall>r. newline \<notin> set (?stringify r)"
    "\<forall>r. ?stringify r \<noteq> []"
    by (simp_all add: newline_def)
  have "readStore ?parse (log_after ?stringify [Appended True, Corrupted ''{oops'', Appended False]) 3
          = appended_records [Appended True, Corrupted ''{oops'', Appended False]"
    by (rule readStore_round_trip [OF codec])
       (simp_all add: corrupted_lines_simps appended_records_simps newline_def)
  moreover have "readStore ?parse (log_after ?stringify [Appended True, Appended False]) 2
          = appended_records [Appended True, Appended False]"
    by (rule readStore_round_trip [OF codec])
       (simp_all add: corrupted_lines_simps appended_records_simps newline_def)
  ultimately show ?thesis by (simp add: appended_records_simps)
qed

section \<open>Idempotency ledger: pruning evicts the oldest marks\<close>

lemma fold_delete:
  "k \<le> length s \<Longrightarrow>
   fold (\<lambda>i m. obj_delete (fst (s ! i)) m) [0..<k] m
     = filter (\<lambda>e. fst e \<notin> fst ` set (take k s)) m"
proof (induction k)
  case 0
  show ?case by simp
next
  case (Suc k)
  then have "take (Suc k) s = take k s @ [s ! k]"
    by (simp add: take_Suc_conv_app_nth)
  then show ?case using Suc by (auto simp: obj_delete_def intro: filter_cong)
qed

lemma distinct_keys_mem:
  assumes "distinct (map fst m)" and "e \<in> set m" and "d \<in> set m" and "fst e = fst d"
  shows "e = d"
  using assms by (meson distinct_map inj_onD)

lemma prune_filter:
  assumes dk: "distinct (map fst (processed st))" and big: "maxItems < length (processed st)"
  shows "processed (pruneProcessed st maxItems)
           = filter (\<lambda>e. e \<notin> set (take (length (processed st) - maxItems)
                                      (sort_key mark_time (processed st))))
               (processed st)"
proof -
  let ?es = "processed st"
  let ?k = "length ?es - maxItems"
  let ?del = "take ?k (sort_key mark_time ?es)"
  have sub: "set ?del \<subseteq> set ?es"
    using set_take_subset [of ?k "sort_key mark_time ?es"] by simp
  have "processed (pruneProcessed st maxItems)
          = filter (\<lambda>e. fst e \<notin> fst ` set ?del) ?es"
    using big by (simp add: pruneProcessed_def Let_def fold_delete)
  also have "\<dots> = filter (\<lambda>e. e \<notin> set ?del) ?es"
  proof (rule filter_cong [OF refl])
    fix e assume e: "e \<in> set ?es"
    show "(fst e \<notin> fst ` set ?del) = (e \<notin> set ?del)"
    proof
      assume "fst e \<notin> fst ` set ?del" then show "e \<notin> set ?del" by auto
    next
      assume n: "e \<notin> set ?del"
      show "fst e \<notin> fst ` set ?del"
      proof
        assume "fst e \<in> fst ` set ?del"
        then obtain d where d: "d \<in> set ?del" "fst e = fst d" by auto
        moreover from d sub have "d \<in> set ?es" by auto
        ultimately have "e = d" using distinct_keys_mem [OF dk e] by blast
        then show False using n d by simp
      qed
    qed
  qed
  finally show ?thesis .
qed

lemma length_filter_remove:
  assumes "distinct xs" and "distinct ds" and "set ds \<subseteq> set xs"
  shows "length (filter (\<lambda>e. e \<notin> set ds) xs) = length xs - length ds"
proof -
  have "distinct (filter (\<lambda>e. e \<notin> set ds) xs)" using assms(1) by simp
  then have "length (filter (\<lambda>e. e \<notin> set ds) xs) = card (set xs - set ds)"
    using distinct_card [of "filter (\<lambda>e. e \<notin> set ds) xs"] 
    by (simp add: set_diff_eq conj_commute)
  also have "\<dots> = card (set xs) - card (set ds)"
    using assms(3) by (simp add: card_Diff_subset)
  finally show ?thesis using assms(1,2) by (simp add: distinct_card)
qed

lemma sorted_take_drop:
  assumes "sorted (map f xs)" and "x \<in> set (take k xs)" and "y \<in> set (drop k xs)"
  shows "f x \<le> f y"
proof -
  have "sorted (map f (take k xs) @ map f (drop k xs))"
    using assms(1) by (simp only: map_append [symmetric] append_take_drop_id)
  then show ?thesis using assms(2,3) by (auto simp: sorted_append)
qed

lemma prune_facts:
  assumes dk: "distinct (map fst (processed st))" and big: "maxItems < length (processed st)"
  shows "length (processed (pruneProcessed st maxItems)) = maxItems"
    and "set (processed (pruneProcessed st maxItems)) \<subseteq> set (processed st)"
    and "\<forall>e \<in> set (processed st) - set (processed (pruneProcessed st maxItems)).
           \<forall>e' \<in> set (processed (pruneProcessed st maxItems)). mark_time e \<le> mark_time e'"
proof -
  let ?es = "processed st"
  let ?k = "length ?es - maxItems"
  let ?srt = "sort_key mark_time ?es"
  let ?del = "take ?k ?srt"
  have de: "distinct ?es" using dk by (simp add: distinct_map)
  have ds: "distinct ?srt" using de by simp
  have sub: "set ?del \<subseteq> set ?es"
    using set_take_subset [of ?k ?srt] by simp
  have res: "processed (pruneProcessed st maxItems) = filter (\<lambda>e. e \<notin> set ?del) ?es"
    by (rule prune_filter [OF dk big])
  have "length ?del = ?k" by simp
  then show "length (processed (pruneProcessed st maxItems)) = maxItems"
    using length_filter_remove [OF de _ sub] ds big by (simp add: res)
  show "set (processed (pruneProcessed st maxItems)) \<subseteq> set ?es"
    by (auto simp: res)
  have ord: "\<forall>x \<in> set ?del. \<forall>y \<in> set (drop ?k ?srt). mark_time x \<le> mark_time y"
    using sorted_take_drop [OF sorted_sort_key [of mark_time ?es]] by blast
  have kept: "set (filter (\<lambda>e. e \<notin> set ?del) ?es) \<subseteq> set (drop ?k ?srt)"
  proof
    fix e assume "e \<in> set (filter (\<lambda>e. e \<notin> set ?del) ?es)"
    then have "e \<in> set ?srt" "e \<notin> set ?del" by simp_all
    then show "e \<in> set (drop ?k ?srt)"
      using set_append [of ?del "drop ?k ?srt"] by (simp only: append_take_drop_id) auto
  qed
  show "\<forall>e \<in> set ?es - set (processed (pruneProcessed st maxItems)).
           \<forall>e' \<in> set (processed (pruneProcessed st maxItems)). mark_time e \<le> mark_time e'"
    using ord kept by (auto simp: res)
qed

lemma prune_small: "length (processed st) \<le> maxItems \<Longrightarrow> pruneProcessed st maxItems = st"
  by (simp add: pruneProcessed_def)

lemma prune_unique_oldest:
  assumes dk: "distinct (map fst (processed st))"
    and len: "length (processed st) = Suc maxItems"
    and e0: "e0 \<in> set (processed st)"
    and old: "\<forall>e \<in> set (processed st). e \<noteq> e0 \<longrightarrow> mark_time e0 < mark_time e"
  shows "processed (pruneProcessed st maxItems) = filter (\<lambda>e. e \<noteq> e0) (processed st)"
proof -
  let ?es = "processed st"
  let ?srt = "sort_key mark_time ?es"
  have ne: "?srt \<noteq> []"
  proof
    assume "?srt = []"
    then have "length ?srt = 0" by simp
    then show False using len by simp
  qed
  then have t1: "take (Suc 0) ?srt = [hd ?srt]" by (cases ?srt) simp_all
  have hd_in: "hd ?srt \<in> set ?es" using ne hd_in_set [of ?srt] by simp
  have "hd ?srt = e0"
  proof (rule ccontr)
    assume neq: "hd ?srt \<noteq> e0"
    then have lt: "mark_time e0 < mark_time (hd ?srt)" using old hd_in by blast
    have "e0 \<in> set ?srt" using e0 by simp
    then have "e0 \<in> set (hd ?srt # tl ?srt)" using ne by simp
    then have "e0 \<in> set (tl ?srt)" using neq by auto
    then have "e0 \<in> set (drop (Suc 0) ?srt)" by (simp add: drop_Suc)
    moreover have "hd ?srt \<in> set (take (Suc 0) ?srt)" by (simp add: t1)
    ultimately have "mark_time (hd ?srt) \<le> mark_time e0"
      using sorted_take_drop [OF sorted_sort_key [of mark_time ?es]] by blast
    then show False using lt by simp
  qed
  moreover have "length ?es - maxItems = Suc 0" using len by simp
  moreover have "maxItems < length ?es" using len by simp
  ultimately show ?thesis
    using prune_filter [OF dk, of maxItems] by (simp add: t1)
qed

lemma insert_index_set: "set (insert_index n e m) = insert e (set m)"
  by (induction m) (auto split: option.splits)

lemma insert_index_length: "length (insert_index n e m) = Suc (length m)"
  by (induction m) (auto split: option.splits)

lemma insert_index_distinct:
  "fst e \<notin> fst ` set m \<Longrightarrow> distinct (map fst m) \<Longrightarrow> distinct (map fst (insert_index n e m))"
  by (induction m) (auto simp: insert_index_set split: option.splits)

lemma obj_set_new:
  assumes "k \<notin> fst ` set m"
  shows "set (obj_set k v m) = insert (k, v) (set m)"
    and "length (obj_set k v m) = Suc (length m)"
    and "distinct (map fst m) \<Longrightarrow> distinct (map fst (obj_set k v m))"
  using assms
  by (auto simp: obj_set_def insert_index_set insert_index_length insert_index_distinct
        split: option.splits)

lemma mark_all_snoc:
  "mark_all (ms @ [(k, t)]) st = markProcessed t (mark_all ms st) k"
  by (simp add: mark_all_def)

lemma mark_all_no_prune:
  assumes "distinct (map fst ms)" and "length ms \<le> 4000"
  shows "set (processed (mark_all ms \<lparr> lastCheckedAt = c, processed = [] \<rparr>))
           = (\<lambda>(k, t). (k, Some t)) ` set ms
       \<and> length (processed (mark_all ms \<lparr> lastCheckedAt = c, processed = [] \<rparr>)) = length ms
       \<and> distinct (map fst (processed (mark_all ms \<lparr> lastCheckedAt = c, processed = [] \<rparr>)))"
  using assms
proof (induction ms rule: rev_induct)
  case Nil
  show ?case by (simp add: mark_all_def)
next
  case (snoc x ms)
  obtain k t where x: "x = (k, t)" by (cases x)
  let ?st = "mark_all ms \<lparr> lastCheckedAt = c, processed = [] \<rparr>"
  have IH: "set (processed ?st) = (\<lambda>(k, t). (k, Some t)) ` set ms"
    "length (processed ?st) = length ms" "distinct (map fst (processed ?st))"
    using snoc by simp_all
  have new: "k \<notin> fst ` set (processed ?st)"
    using snoc.prems(1) by (force simp: IH(1) x)
  let ?st' = "?st\<lparr> processed := obj_set k (Some t) (processed ?st) \<rparr>"
  have "length (processed ?st') \<le> 4000"
    using snoc.prems(2) by (simp add: obj_set_new(2) [OF new] IH(2))
  then have "markProcessed t ?st k = ?st'"
    by (simp add: markProcessed_def prune_small)
  then show ?case
    using obj_set_new [OF new, of "Some t"] IH
    by (simp add: x mark_all_snoc)
qed

lemma mark_all_4001:
  assumes dk: "distinct (map fst ms)" and inc: "sorted_wrt (<) (map snd ms)"
    and len: "length ms = 4001"
  shows "length (processed (mark_all ms \<lparr> lastCheckedAt = c, processed = [] \<rparr>)) = 4000
       \<and> set (processed (mark_all ms \<lparr> lastCheckedAt = c, processed = [] \<rparr>))
             = (\<lambda>(k, t). (k, Some t)) ` set (tl ms)"
proof -
  obtain k1 t1 rest where ms1: "ms = (k1, t1) # rest"
    using len by (cases ms) auto
  obtain bs k t where ms2: "ms = bs @ [(k, t)]"
    using len by (cases ms rule: rev_cases) auto
  let ?f = "\<lambda>(k, t). (k, Some t) :: string \<times> int option"
  let ?st = "mark_all bs \<lparr> lastCheckedAt = c, processed = [] \<rparr>"
  have bs: "distinct (map fst bs)" "length bs = 4000"
    using dk len by (simp_all add: ms2)
  have IH: "set (processed ?st) = ?f ` set bs"
    "length (processed ?st) = length bs" "distinct (map fst (processed ?st))"
    using mark_all_no_prune [of bs c] bs by simp_all
  have new: "k \<notin> fst ` set (processed ?st)"
    using dk by (force simp: IH(1) ms2)
  let ?m' = "obj_set k (Some t) (processed ?st)"
  let ?st' = "?st\<lparr> processed := ?m' \<rparr>"
  have pm: "processed ?st' = ?m'" by simp
  have set': "set ?m' = ?f ` set ms"
    using obj_set_new(1) [OF new, of "Some t"] by (simp add: IH(1) ms2)
  have len': "length (processed ?st') = Suc 4000"
    using obj_set_new(2) [OF new, of "Some t"] by (simp add: IH(2) bs(2))
  have dk': "distinct (map fst (processed ?st'))"
    using obj_set_new(3) [OF new IH(3), of "Some t"] by simp
  have e0: "(k1, Some t1) \<in> set (processed ?st')"
    unfolding pm set' by (simp add: ms1)
  have old: "\<forall>e \<in> set (processed ?st'). e \<noteq> (k1, Some t1)
               \<longrightarrow> mark_time (k1, Some t1) < mark_time e"
    unfolding pm set'
  proof (intro ballI impI)
    fix e assume e: "e \<in> ?f ` set ms" and ne: "e \<noteq> (k1, Some t1)"
    then obtain k' t' where kt: "(k', t') \<in> set ms" "e = (k', Some t')"
      by auto
    then have "(k', t') \<in> set rest" using ne by (auto simp: ms1)
    then have "t1 < t'" using inc by (force simp: ms1)
    then show "mark_time (k1, Some t1) < mark_time e"
      by (simp add: kt mark_time_def)
  qed
  have res: "processed (pruneProcessed ?st' 4000)
               = filter (\<lambda>e. e \<noteq> (k1, Some t1)) (processed ?st')"
    by (rule prune_unique_oldest [OF dk' len' e0 old])
  have fin: "mark_all ms \<lparr> lastCheckedAt = c, processed = [] \<rparr> = pruneProcessed ?st' 4000"
    by (simp add: ms2 mark_all_snoc markProcessed_def)
  have "k1 \<notin> fst ` set rest" using dk by (simp add: ms1)
  then have notin: "(k1, Some t1) \<notin> ?f ` set rest" by force
  have "set (filter (\<lambda>e. e \<noteq> (k1, Some t1)) ?m') = ?f ` set rest"
    using notin unfolding set_filter set' by (auto simp: ms1)
  moreover have "length (processed (pruneProcessed ?st' 4000)) = 4000"
    using prune_facts(1) [OF dk', of 4000] len' by simp
  ultimately show ?thesis unfolding fin res pm by (simp add: ms1)
qed

text \<open>
  C5. Let the keys of the processed map be distinct (it is an object). With more than
  \<open>maxItems\<close> entries, \<open>pruneProcessed\<close> leaves exactly \<open>maxItems\<close> of them, and every evicted
  entry is at least as old as every kept one; with one entry too many and a single oldest
  entry, exactly that entry goes; with at most \<open>maxItems\<close> entries the ledger is unchanged.
  Marking 4001 distinct identifiers with strictly increasing timestamps, from an empty
  ledger, leaves exactly 4000 entries: all but the first one marked.
\<close>

theorem pruneProcessed_evicts_oldest:
  "(distinct (map fst (processed st)) \<and> maxItems < length (processed st) \<longrightarrow>
        length (processed (pruneProcessed st maxItems)) = maxItems
      \<and> set (processed (pruneProcessed st maxItems)) \<subseteq> set (processed st)
      \<and> (\<forall>e \<in> set (processed st) - set (processed (pruneProcessed st maxItems)).
            \<forall>e' \<in> set (processed (pruneProcessed st maxItems)). mark_time e \<le> mark_time e')
      \<and> lastCheckedAt (pruneProcessed st maxItems) = lastCheckedAt st)
   \<and> (distinct (map fst (processed st)) \<and> length (processed st) = Suc maxItems
        \<and> e0 \<in> set (processed st)
        \<and> (\<forall>e \<in> set (processed st). e \<noteq> e0 \<longrightarrow> mark_time e0 < mark_time e) \<longrightarrow>
        processed (pruneProcessed st maxItems) = filter (\<lambda>e. e \<noteq> e0) (processed st))
   \<and> (length (processed st) \<le> maxItems \<longrightarrow> pruneProcessed st maxItems = st)
   \<and> (distinct (map fst marks) \<and> sorted_wrt (<) (map snd marks) \<and> length marks = 4001 \<longrightarrow>
        length (processed (mark_all marks \<lparr> lastCheckedAt = c, processed = [] \<rparr>)) = 4000
      \<and> set (processed (mark_all marks \<lparr> lastCheckedAt = c, processed = [] \<rparr>))
            = (\<lambda>(k, t). (k, Some t)) ` set (tl marks))"
proof (intro conjI impI)
  assume h: "distinct (map fst (processed st)) \<and> maxItems < length (processed st)"
  then have dk: "distinct (map fst (processed st))" and big: "maxItems < length (processed st)"
    by simp_all
  show "length (processed (pruneProcessed st maxItems)) = maxItems"
    by (rule prune_facts(1) [OF dk big])
  show "set (processed (pruneProcessed st maxItems)) \<subseteq> set (processed st)"
    by (rule prune_facts(2) [OF dk big])
  show "\<forall>e \<in> set (processed st) - set (processed (pruneProcessed st maxItems)).
          \<forall>e' \<in> set (processed (pruneProcessed st maxItems)). mark_time e \<le> mark_time e'"
    by (rule prune_facts(3) [OF dk big])
  show "lastCheckedAt (pruneProcessed st maxItems) = lastCheckedAt st"
    by (simp add: pruneProcessed_def Let_def)
next
  assume "distinct (map fst (processed st)) \<and> length (processed st) = Suc maxItems
        \<and> e0 \<in> set (processed st)
        \<and> (\<forall>e \<in> set (processed st). e \<noteq> e0 \<longrightarrow> mark_time e0 < mark_time e)"
  then show "processed (pruneProcessed st maxItems) = filter (\<lambda>e. e \<noteq> e0) (processed st)"
    using prune_unique_oldest [of st maxItems e0] by blast
next
  assume "length (processed st) \<le> maxItems"
  then show "pruneProcessed st maxItems = st" by (rule prune_small)
next
  assume h: "distinct (map fst marks) \<and> sorted_wrt (<) (map snd marks) \<and> length marks = 4001"
  then have m: "length (processed (mark_all marks \<lparr> lastCheckedAt = c, processed = [] \<rparr>)) = 4000
       \<and> set (processed (mark_all marks \<lparr> lastCheckedAt = c, processed = [] \<rparr>))
             = (\<lambda>(k, t). (k, Some t)) ` set (tl marks)"
    using mark_all_4001 [of marks c] by blast
  from m show "length (processed (mark_all marks \<lparr> lastCheckedAt = c, processed = [] \<rparr>)) = 4000"
    by (rule conjunct1)
  from m show "set (processed (mark_all marks \<lparr> lastCheckedAt = c, processed = [] \<rparr>))
             = (\<lambda>(k, t). (k, Some t)) ` set (tl marks)"
    by (rule conjunct2)
qed

theorem pruneProcessed_evicts_oldest_witness:
  "processed (pruneProcessed
       \<lparr> lastCheckedAt = 7, processed = [(''101'', Some 30), (''102'', Some 10), (''103'', Some 20)] \<rparr> 2)
     = [(''101'', Some 30), (''103'', Some 20)]
   \<and> pruneProcessed
       \<lparr> lastCheckedAt = 7, processed = [(''101'', Some 30), (''102'', Some 10), (''103'', Some 20)] \<rparr> 5
     = \<lparr> lastCheckedAt = 7, processed = [(''101'', Some 30), (''102'', Some 10), (''103'', Some 20)] \<rparr>
   \<and> length (processed (mark_all
       (map (\<lambda>i. (replicate (Suc i) CHR ''x'', int i)) [0..<4001])
       \<lparr> lastCheckedAt = 0, processed = [] \<rparr>)) = 4000"
proof -
  let ?st = "\<lparr> lastCheckedAt = 7, processed = [(''101'', Some 30), (''102'', Some 10), (''103'', Some 20)] \<rparr>"
  let ?marks = "(map (\<lambda>i. (replicate (Suc i) CHR ''x'', int i)) [0..<4001])"
  note th = pruneProcessed_evicts_oldest
  have dk: "distinct (map fst (processed ?st))" by simp
  have "length (processed (pruneProcessed ?st 2)) = 2"
    using th [of ?st 2, THEN conjunct1] by simp
  moreover have "processed (pruneProcessed ?st 2) = filter (\<lambda>e. e \<noteq> (''102'', Some 10)) (processed ?st)"
    using th [of ?st 2 "(''102'', Some 10)", THEN conjunct2, THEN conjunct1]
    by (simp add: mark_time_def)
  moreover have "pruneProcessed ?st 5 = ?st"
    using th [of ?st 5, THEN conjunct2, THEN conjunct2, THEN conjunct1] by simp
  moreover have "length (processed (mark_all ?marks \<lparr> lastCheckedAt = 0, processed = [] \<rparr>)) = 4000"
  proof -
    have "inj_on (\<lambda>i. replicate (Suc i) CHR ''x'') (set [0..<4001])"
      by (rule inj_onI) (auto dest: arg_cong [where f = length])
    then have d: "distinct (map fst ?marks)"
      by (simp add: comp_def distinct_map)
    have s: "sorted_wrt (<) (map snd ?marks)"
      by (simp add: comp_def sorted_wrt_map)
    have l: "length ?marks = 4001" by simp
    show ?thesis
      using th [of _ _ _ ?marks 0, THEN conjunct2, THEN conjunct2, THEN conjunct2] d s l
      by blast
  qed
  ultimately show ?thesis by simp
qed

section \<open>Historical matcher: the most recent comparable record\<close>





text \<open>
  The distance test follows the doubles: for a current distance of 5002 m and the double
  nearest to 4001.6 m the computed quotient is the double \<open>0.2\<close> and the test passes, while
  the exact quotient is above one fifth.
\<close>

lemma within_20_percent_rounded:
  "within_20_percent (8799611459416883 / 2199023255552) 5002
   \<and> 1 / 5 < \<bar>8799611459416883 / 2199023255552 - 5002\<bar> / (5002 :: real)"
  by (simp add: within_20_percent_def fl_eval)



end
